theory Spec2Isabelle
  imports Complex_Main
begin

section \<open>Pass prediction of src/app.js: the data model\<close>

text \<open>
  The pass prediction of \<^verbatim>\<open>src/app.js\<close> consists of \<^verbatim>\<open>bisectCrossingTime\<close>,
  \<^verbatim>\<open>findMaxElevation\<close> and \<^verbatim>\<open>computeNextPasses\<close>. All three see the satellite only
  through \<^verbatim>\<open>elevationDeg(satrec, date, obsLat, obsLon, obsAltM)\<close>, which calls the
  external library satellite.js and yields a number of degrees, or \<^verbatim>\<open>null\<close> when the
  propagation has no position. The satellite record and the observer do not change during
  one search, so \<^verbatim>\<open>elevationDeg\<close> is a parameter \<open>el\<close> of the model: a function from the
  time value of the \<^verbatim>\<open>Date\<close> it is given to an optional elevation.

  A \<^verbatim>\<open>Date\<close> is its time value, an integral number of milliseconds (type \<open>int\<close>).
  The numbers \<^verbatim>\<open>a\<close>, \<^verbatim>\<open>b\<close>, \<^verbatim>\<open>m\<close> of the bisection and the elevations are
  rationals. JavaScript computes in binary64, and the bisection is modelled twice.
  \<open>bisect_body\<close>, \<open>bisect_for\<close> and \<open>bisectCrossingTime\<close> take the midpoint
  \<^verbatim>\<open>(a + b) / 2\<close> exactly. The coarse scan calls this model, and the statements proved of
  it are those that do not depend on the rounding: that the result lies in the bracket,
  that the function returns \<^verbatim>\<open>null\<close> exactly when one of its calls of
  \<^verbatim>\<open>elevationDeg\<close> does, and the order of the passes. \<open>bisect64_body\<close>,
  \<open>bisect64_for\<close> and \<open>bisectCrossingTime64\<close> round the sum and its half as binary64
  does; the accuracy of the bisection and the width of its final bracket, where rounding
  matters, are proved of this model, and so is the bracket property once more.
  \<^verbatim>\<open>NaN\<close>, infinities and time values outside the range of \<^verbatim>\<open>Date\<close> are not
  modelled.
\<close>

type_synonym elevation = "int \<Rightarrow> rat option"

text \<open>
  \<^verbatim>\<open>new Date(x)\<close> for a number \<open>x\<close>: the time value is \<open>x\<close> with its fraction dropped
  (truncation towards zero).
\<close>

definition newDate :: "rat \<Rightarrow> int" where
  "newDate x = (if 0 \<le> x then \<lfloor>x\<rfloor> else \<lceil>x\<rceil>)"

text \<open>The object \<^verbatim>\<open>{ t, elev }\<close> of \<^verbatim>\<open>findMaxElevation\<close>.\<close>

record peak =
  peak_t :: int
  elev :: rat

text \<open>The object \<^verbatim>\<open>{ aos, los, tca, maxElev }\<close> pushed by \<^verbatim>\<open>computeNextPasses\<close>.\<close>

record pass =
  aos :: int
  los :: int
  tca :: int
  maxElev :: rat

text \<open>The local variables of the coarse scan of \<^verbatim>\<open>computeNextPasses\<close>.\<close>

record scan =
  prevT :: int
  prevE :: rat
  inPass :: bool
  currentAOS :: "int option"
  passes :: "pass list"

text \<open>
  What \<^verbatim>\<open>computeNextPasses\<close> leaves behind: the status line saying that no pass was
  found in the next \<^verbatim>\<open>searchHours\<close> hours, or the table of the passes.
\<close>

datatype outcome = NoPassesFound int | PassesListed "pass list"


section \<open>bisectCrossingTime\<close>

text \<open>
  One turn of the \<^verbatim>\<open>for\<close> loop on the variables \<open>(a, b, ea, eb)\<close>: \<open>Inl r\<close> when the
  function returns \<open>r\<close> from inside the loop (\<open>None\<close> is \<^verbatim>\<open>null\<close>), \<open>Inr\<close> the
  variables for the next turn.
\<close>

fun bisect_body :: "elevation \<Rightarrow> rat \<Rightarrow> rat \<times> rat \<times> rat \<times> rat \<Rightarrow>
    int option + rat \<times> rat \<times> rat \<times> rat" where
  "bisect_body el targetElevDeg (a, b, ea, eb) =
     (let m = (a + b) / 2 in
      case el (newDate m) of
        None \<Rightarrow> Inl None
      | Some em \<Rightarrow>
          (let fa = ea - targetElevDeg; fm = em - targetElevDeg in
           if fa = 0 then Inl (Some (newDate a))
           else if (fa > 0 \<and> fm > 0) \<or> (fa < 0 \<and> fm < 0) then Inr (m, b, em, eb)
           else Inr (a, m, ea, em)))"

text \<open>The loop, with the number of turns that remain, and the return after it.\<close>

fun bisect_for :: "elevation \<Rightarrow> rat \<Rightarrow> nat \<Rightarrow> rat \<times> rat \<times> rat \<times> rat \<Rightarrow> int option" where
  "bisect_for el targetElevDeg 0 (a, b, ea, eb) = Some (newDate ((a + b) / 2))"
| "bisect_for el targetElevDeg (Suc n) s =
     (case bisect_body el targetElevDeg s of
        Inl r \<Rightarrow> r
      | Inr s' \<Rightarrow> bisect_for el targetElevDeg n s')"

definition bisectCrossingTime :: "elevation \<Rightarrow> int \<Rightarrow> int \<Rightarrow> rat \<Rightarrow> nat \<Rightarrow> int option" where
  "bisectCrossingTime el t0 t1 targetElevDeg iters =
     (let a = of_int t0; b = of_int t1 in
      case (el (newDate a), el (newDate b)) of
        (Some ea, Some eb) \<Rightarrow> bisect_for el targetElevDeg iters (a, b, ea, eb)
      | _ \<Rightarrow> None)"

text \<open>
  Two views of the same loop, for the statements about its run. \<open>bisect_at n s\<close> is the
  value of \<open>(a, b, ea, eb)\<close> after \<open>n\<close> turns started from \<open>s\<close>, when the loop is still
  running then. \<open>bisect_mids n s\<close> lists the dates at which the first \<open>n\<close> turns call
  \<^verbatim>\<open>elevationDeg\<close>, and \<open>bisect_calls\<close> all the dates at which one call of
  \<^verbatim>\<open>bisectCrossingTime\<close> does.
\<close>

fun bisect_at :: "elevation \<Rightarrow> rat \<Rightarrow> nat \<Rightarrow> rat \<times> rat \<times> rat \<times> rat \<Rightarrow>
    (rat \<times> rat \<times> rat \<times> rat) option" where
  "bisect_at el targetElevDeg 0 s = Some s"
| "bisect_at el targetElevDeg (Suc n) s =
     (case bisect_body el targetElevDeg s of
        Inl r \<Rightarrow> None
      | Inr s' \<Rightarrow> bisect_at el targetElevDeg n s')"

fun bisect_mids :: "elevation \<Rightarrow> rat \<Rightarrow> nat \<Rightarrow> rat \<times> rat \<times> rat \<times> rat \<Rightarrow> int list" where
  "bisect_mids el targetElevDeg 0 s = []"
| "bisect_mids el targetElevDeg (Suc n) (a, b, ea, eb) =
     newDate ((a + b) / 2) #
     (case bisect_body el targetElevDeg (a, b, ea, eb) of
        Inl r \<Rightarrow> []
      | Inr s' \<Rightarrow> bisect_mids el targetElevDeg n s')"

definition bisect_calls :: "elevation \<Rightarrow> int \<Rightarrow> int \<Rightarrow> rat \<Rightarrow> nat \<Rightarrow> int list" where
  "bisect_calls el t0 t1 targetElevDeg iters =
     t0 # t1 #
     (case (el t0, el t1) of
        (Some ea, Some eb) \<Rightarrow> bisect_mids el targetElevDeg iters (of_int t0, of_int t1, ea, eb)
      | _ \<Rightarrow> [])"


section \<open>The bisection in binary64\<close>

text \<open>
  JavaScript numbers are binary64 floating-point numbers. The time values of a bracket are
  integers below \<open>2 ^ 53\<close> and are exact, but the sum \<^verbatim>\<open>a + b\<close> of the loop is rounded
  as soon as the bounds carry fractions finer than the spacing of the numbers near the sum
  (\<open>1 / 2048\<close> for present-day time values, which lie between \<open>2 ^ 40\<close> and \<open>2 ^ 41\<close>).
  The definitions of this section round as binary64 does: to the nearest number with 53
  significant bits, a tie to the one with the even last bit, with the fixed spacing
  \<open>2 ^ - 1074\<close> of the subnormal numbers at the bottom. Overflow is left out: the numbers
  of the bisection stay below \<open>2 ^ 54\<close>.

  \<open>bit_length n\<close> is the number of binary digits of \<open>n\<close>. \<open>round_even y\<close> is the integer
  nearest to \<open>y\<close>, the even one at a tie. \<open>round_sig X\<close> rounds \<open>X\<close>, a number counted in
  units of \<open>2 ^ - 1074\<close>, to 53 significant bits, and \<open>fl64 x\<close> is the binary64 number
  nearest to \<open>x\<close>.
\<close>

fun bit_length :: "nat \<Rightarrow> nat" where
  "bit_length n = (if n = 0 then 0 else Suc (bit_length (n div 2)))"

definition round_even :: "rat \<Rightarrow> int" where
  "round_even y =
     (let f = \<lfloor>y\<rfloor>; d = y - of_int f
      in if d < 1 / 2 then f else if 1 / 2 < d then f + 1 else if even f then f else f + 1)"

definition round_sig :: "rat \<Rightarrow> int" where
  "round_sig X =
     (let q = 2 ^ (bit_length (nat \<lfloor>\<bar>X\<bar>\<rfloor>) - 53)
      in round_even (X / of_int q) * q)"

definition fl64 :: "rat \<Rightarrow> rat" where
  "fl64 x = of_int (round_sig (x * 2 ^ 1074)) / 2 ^ 1074"

text \<open>
  \<^verbatim>\<open>(a + b) / 2\<close> as JavaScript computes it: the sum is rounded, and so is its half
  (halving a binary64 number is exact outside the subnormal range).
\<close>

definition mid64 :: "rat \<Rightarrow> rat \<Rightarrow> rat" where
  "mid64 a b = fl64 (fl64 (a + b) / 2)"

text \<open>
  \<^verbatim>\<open>bisectCrossingTime\<close> with these midpoints: the loop body, the loop, the function and
  the variables after \<open>n\<close> turns, as in the last section. The elevations stay as they are:
  the code looks at the signs of \<^verbatim>\<open>ea - targetElevDeg\<close> and \<^verbatim>\<open>em - targetElevDeg\<close> only,
  and the rounded difference of two binary64 numbers has the sign of the exact one.
\<close>

fun bisect64_body :: "elevation \<Rightarrow> rat \<Rightarrow> rat \<times> rat \<times> rat \<times> rat \<Rightarrow>
    int option + rat \<times> rat \<times> rat \<times> rat" where
  "bisect64_body el targetElevDeg (a, b, ea, eb) =
     (let m = mid64 a b in
      case el (newDate m) of
        None \<Rightarrow> Inl None
      | Some em \<Rightarrow>
          (let fa = ea - targetElevDeg; fm = em - targetElevDeg in
           if fa = 0 then Inl (Some (newDate a))
           else if (fa > 0 \<and> fm > 0) \<or> (fa < 0 \<and> fm < 0) then Inr (m, b, em, eb)
           else Inr (a, m, ea, em)))"

fun bisect64_for :: "elevation \<Rightarrow> rat \<Rightarrow> nat \<Rightarrow> rat \<times> rat \<times> rat \<times> rat \<Rightarrow> int option" where
  "bisect64_for el targetElevDeg 0 (a, b, ea, eb) = Some (newDate (mid64 a b))"
| "bisect64_for el targetElevDeg (Suc n) s =
     (case bisect64_body el targetElevDeg s of
        Inl r \<Rightarrow> r
      | Inr s' \<Rightarrow> bisect64_for el targetElevDeg n s')"

definition bisectCrossingTime64 :: "elevation \<Rightarrow> int \<Rightarrow> int \<Rightarrow> rat \<Rightarrow> nat \<Rightarrow> int option" where
  "bisectCrossingTime64 el t0 t1 targetElevDeg iters =
     (let a = of_int t0; b = of_int t1 in
      case (el (newDate a), el (newDate b)) of
        (Some ea, Some eb) \<Rightarrow> bisect64_for el targetElevDeg iters (a, b, ea, eb)
      | _ \<Rightarrow> None)"

fun bisect64_at :: "elevation \<Rightarrow> rat \<Rightarrow> nat \<Rightarrow> rat \<times> rat \<times> rat \<times> rat \<Rightarrow>
    (rat \<times> rat \<times> rat \<times> rat) option" where
  "bisect64_at el targetElevDeg 0 s = Some s"
| "bisect64_at el targetElevDeg (Suc n) s =
     (case bisect64_body el targetElevDeg s of
        Inl r \<Rightarrow> None
      | Inr s' \<Rightarrow> bisect64_at el targetElevDeg n s')"


section \<open>findMaxElevation\<close>

text \<open>The \<^verbatim>\<open>for\<close> loop over \<^verbatim>\<open>ms\<close>, in steps of five seconds up to \<^verbatim>\<open>end\<close>.\<close>

function findMax_for :: "elevation \<Rightarrow> int \<Rightarrow> int \<Rightarrow> peak \<Rightarrow> peak" where
  "findMax_for el end ms best =
     (if ms \<le> end then
        findMax_for el end (ms + 5 * 1000)
          (case el ms of
             None \<Rightarrow> best
           | Some e \<Rightarrow> if e > elev best then \<lparr>peak_t = ms, elev = e\<rparr> else best)
      else best)"
  by pat_completeness auto
termination
  by (relation "measure (\<lambda>(el, end, ms, best). nat (end - ms + 1))") auto

definition findMaxElevation :: "elevation \<Rightarrow> int \<Rightarrow> int \<Rightarrow> peak" where
  "findMaxElevation el start end = findMax_for el end start \<lparr>peak_t = start, elev = - 999\<rparr>"


section \<open>computeNextPasses\<close>

definition stepMs :: int where
  "stepMs = 20 * 1000"

text \<open>The block \<^verbatim>\<open>crossing up: AOS\<close> of the loop body, at the sample \<open>(t, e)\<close>.\<close>

definition crossing_up :: "elevation \<Rightarrow> int \<Rightarrow> rat \<Rightarrow> scan \<Rightarrow> scan" where
  "crossing_up el t e s =
     (if \<not> inPass s \<and> prevE s \<le> 0 \<and> e > 0 then
        s\<lparr>inPass := True,
          currentAOS := Some (case bisectCrossingTime el (prevT s) t 0 25 of
                                None \<Rightarrow> t
                              | Some d \<Rightarrow> d)\<rparr>
      else s)"

text \<open>
  The block \<^verbatim>\<open>crossing down: LOS\<close>. The flag of the result says whether the block
  left the loop with \<^verbatim>\<open>break\<close>.
\<close>

definition crossing_down :: "elevation \<Rightarrow> int \<Rightarrow> int \<Rightarrow> rat \<Rightarrow> scan \<Rightarrow> bool \<times> scan" where
  "crossing_down el nPasses t e s =
     (if inPass s \<and> prevE s > 0 \<and> e \<le> 0 then
        (let finalLOS = (case bisectCrossingTime el (prevT s) t 0 25 of
                           None \<Rightarrow> t
                         | Some d \<Rightarrow> d);
             s1 = s\<lparr>inPass := False\<rparr>
         in case currentAOS s1 of
              None \<Rightarrow> (False, s1\<lparr>currentAOS := None\<rparr>)
            | Some a \<Rightarrow>
                if finalLOS > a then
                  (let best = findMaxElevation el a finalLOS;
                       s2 = s1\<lparr>passes := passes s1 @
                              [\<lparr>aos = a, los = finalLOS, tca = peak_t best, maxElev = elev best\<rparr>]\<rparr>
                   in if int (length (passes s2)) \<ge> nPasses then (True, s2)
                      else (False, s2\<lparr>currentAOS := None\<rparr>))
                else (False, s1\<lparr>currentAOS := None\<rparr>))
      else (False, s))"

text \<open>The body of the coarse loop at the time \<open>tMs\<close>; a \<^verbatim>\<open>null\<close> sample is skipped.\<close>

definition scan_body :: "elevation \<Rightarrow> int \<Rightarrow> int \<Rightarrow> scan \<Rightarrow> bool \<times> scan" where
  "scan_body el nPasses tMs s =
     (case el tMs of
        None \<Rightarrow> (False, s)
      | Some e \<Rightarrow>
          (case crossing_down el nPasses tMs e (crossing_up el tMs e s) of
             (True, s') \<Rightarrow> (True, s')
           | (False, s') \<Rightarrow> (False, s'\<lparr>prevT := tMs, prevE := e\<rparr>)))"

function scan_for :: "elevation \<Rightarrow> int \<Rightarrow> int \<Rightarrow> int \<Rightarrow> scan \<Rightarrow> scan" where
  "scan_for el nPasses end tMs s =
     (if tMs \<le> end then
        (case scan_body el nPasses tMs s of
           (True, s') \<Rightarrow> s'
         | (False, s') \<Rightarrow> scan_for el nPasses end (tMs + stepMs) s')
      else s)"
  by pat_completeness auto
termination
  by (relation "measure (\<lambda>(el, nPasses, end, tMs, s). nat (end - tMs + 1))")
     (auto simp: stepMs_def)

text \<open>The variables of the scan before the loop; \<open>start\<close> is \<^verbatim>\<open>new Date()\<close>, the present.\<close>

definition scan_init :: "elevation \<Rightarrow> int \<Rightarrow> scan" where
  "scan_init el start =
     (let prevE0 = (case el start of None \<Rightarrow> - 999 | Some e \<Rightarrow> e);
          inPass0 = (prevE0 > 0)
      in \<lparr>prevT = start, prevE = prevE0, inPass = inPass0,
          currentAOS = (if inPass0 then Some start else None), passes = []\<rparr>)"

definition scan_passes :: "elevation \<Rightarrow> int \<Rightarrow> int \<Rightarrow> int \<Rightarrow> pass list" where
  "scan_passes el start nPasses searchHours =
     (let end = start + searchHours * 3600 * 1000
      in passes (scan_for el nPasses end (start + stepMs) (scan_init el start)))"

definition computeNextPasses :: "elevation \<Rightarrow> int \<Rightarrow> int \<Rightarrow> int \<Rightarrow> outcome" where
  "computeNextPasses el start nPasses searchHours =
     (let ps = scan_passes el start nPasses searchHours
      in if ps = [] then NoPassesFound searchHours else PassesListed ps)"

section \<open>Predicates used in the statements\<close>

text \<open>
  The fine grid of \<^verbatim>\<open>findMaxElevation\<close>: the times \<open>start\<close>, \<open>start + 5000\<close>, ... up to
  \<open>end\<close>. \<open>is_peak el start S best\<close> says that \<open>best\<close> is the first maximum of the
  elevations known at the times in \<open>S\<close>, or still the initial object when none is known.
\<close>

definition fine_grid :: "int \<Rightarrow> int \<Rightarrow> int set" where
  "fine_grid start end = {ms. start \<le> ms \<and> ms \<le> end \<and> (ms - start) mod (5 * 1000) = 0}"

definition is_peak :: "elevation \<Rightarrow> int \<Rightarrow> int set \<Rightarrow> peak \<Rightarrow> bool" where
  "is_peak el start S best =
     ((\<forall>ms \<in> S. \<forall>e. el ms = Some e \<longrightarrow> e \<le> elev best \<and> (e = elev best \<longrightarrow> peak_t best \<le> ms)) \<and>
      (best = \<lparr>peak_t = start, elev = - 999\<rparr> \<and> (\<forall>ms \<in> S. el ms = None) \<or>
       peak_t best \<in> S \<and> el (peak_t best) = Some (elev best)))"

text \<open>
  The bisection variables straddle a crossing at the real time \<open>c\<close>, up to the millisecond
  lost when a \<^verbatim>\<open>Date\<close> is made of a midpoint; \<open>\<sigma>\<close> is \<open>1\<close> for a rising and \<open>- 1\<close> for a
  setting satellite.
\<close>

definition straddles :: "real \<Rightarrow> real \<Rightarrow> rat \<times> rat \<times> rat \<times> rat \<Rightarrow> bool" where
  "straddles \<sigma> c s = (case s of (a, b, ea, eb) \<Rightarrow>
     a \<le> b \<and> of_rat a - 1 < c \<and> c < of_rat b + 1 \<and> sgn (of_rat ea) = - \<sigma>)"

text \<open>
  The passes found so far follow one another, each with its peak inside it, and all end by
  \<open>bound\<close>; \<open>scan_inv\<close> is the invariant of the coarse loop at the time \<open>tMs\<close>.
\<close>

definition passes_ordered :: "int \<Rightarrow> pass list \<Rightarrow> bool" where
  "passes_ordered bound ps =
     (sorted_wrt (\<lambda>p q. los p \<le> aos q) ps \<and>
      (\<forall>p \<in> set ps. aos p < los p \<and> aos p \<le> tca p \<and> tca p \<le> los p \<and>
         - 999 \<le> maxElev p \<and> los p \<le> bound))"

definition scan_inv :: "int \<Rightarrow> scan \<Rightarrow> bool" where
  "scan_inv tMs s =
     (prevT s < tMs \<and> passes_ordered (prevT s) (passes s) \<and>
      (\<forall>a. currentAOS s = Some a \<longrightarrow> a \<le> prevT s \<and> (\<forall>p \<in> set (passes s). los p \<le> a)))"

text \<open>
  The binary64 numbers: \<open>sig53 Y\<close> says that the integer \<open>Y\<close> has at most 53 significant
  bits, and \<open>is_double x\<close> that \<open>x\<close> is such an integer in units of \<open>2 ^ - 1074\<close>.
  \<open>bracket64 t0 t1 s\<close> is the invariant of the binary64 loop: the bounds are binary64
  numbers, in order, inside \<open>[t0, t1]\<close>.
\<close>

definition sig53 :: "int \<Rightarrow> bool" where
  "sig53 Y \<longleftrightarrow> (\<exists>k :: int. \<exists>j :: nat. \<bar>k\<bar> < 2 ^ 53 \<and> Y = k * 2 ^ j)"

definition is_double :: "rat \<Rightarrow> bool" where
  "is_double x \<longleftrightarrow> (\<exists>Y. sig53 Y \<and> x * 2 ^ 1074 = of_int Y)"

definition bracket64 :: "int \<Rightarrow> int \<Rightarrow> rat \<times> rat \<times> rat \<times> rat \<Rightarrow> bool" where
  "bracket64 t0 t1 s = (case s of (a, b, ea, eb) \<Rightarrow>
     is_double a \<and> is_double b \<and> of_int t0 \<le> a \<and> a \<le> b \<and> b \<le> of_int t1)"

text \<open>
  \<open>gapped g el\<close> is the elevation function \<open>el\<close> that has lost its answer at every other
  coarse sample: at \<open>g + 20 s\<close>, \<open>g + 60 s\<close>, and so on, 40 s apart; everywhere else it
  is \<open>el\<close>. With \<open>g\<close> the start of the search, the lost samples are the first, the
  third, ... of the loop; with \<open>g\<close> the first sample of the loop, they are the start and
  the second, the fourth, ... sample of the loop. \<open>above el t\<close> says that the satellite is
  known to be above the horizon at the time \<open>t\<close>.
\<close>

definition gapped :: "int \<Rightarrow> elevation \<Rightarrow> elevation" where
  "gapped g el t = (if (t - g) mod (2 * stepMs) = stepMs then None else el t)"

definition above :: "elevation \<Rightarrow> int \<Rightarrow> bool" where
  "above el t = (case el t of None \<Rightarrow> False | Some e \<Rightarrow> e > 0)"

text \<open>
  The pass \<open>p'\<close> found with the gaps is the pass \<open>p\<close> found without them, seen more
  coarsely: its AOS and its LOS are times of coarse samples that the gaps have left
  (\<open>g\<close> plus a multiple of 40 s), at or after the AOS and the LOS of \<open>p\<close> and at most
  two coarse steps after them.
\<close>

definition same_crossings :: "int \<Rightarrow> pass \<Rightarrow> pass \<Rightarrow> bool" where
  "same_crossings g p p' =
     (aos p \<le> aos p' \<and> aos p' \<le> aos p + 2 * stepMs \<and> (aos p' - g) mod (2 * stepMs) = 0 \<and>
      los p \<le> los p' \<and> los p' \<le> los p + 2 * stepMs \<and> (los p' - g) mod (2 * stepMs) = 0)"

text \<open>
  The two scans, one on \<open>el\<close> and one on \<open>gapped g el\<close>, seen at a coarse sample \<open>u\<close>
  that the gaps have left: both hold the sample at \<open>u\<close> as their last one, they agree on
  being in a pass, their passes correspond, and so do their pending AOS; the AOS of the
  scan on \<open>el\<close> is before \<open>u\<close>, unless the satellite is still up at the next sample or
  the window ends before it.
\<close>

definition coupled :: "int \<Rightarrow> elevation \<Rightarrow> int \<Rightarrow> int \<Rightarrow> scan \<Rightarrow> scan \<Rightarrow> bool" where
  "coupled g el end u s s' =
     (prevT s = u \<and> prevT s' = u \<and> el u = Some (prevE s) \<and> prevE s' = prevE s \<and>
      inPass s = (prevE s > 0) \<and> inPass s' = (prevE s > 0) \<and>
      list_all2 (same_crossings g) (passes s) (passes s') \<and>
      (prevE s > 0 \<longrightarrow>
         (\<exists>a a'. currentAOS s = Some a \<and> currentAOS s' = Some a' \<and>
            a \<le> a' \<and> a' \<le> a + 2 * stepMs \<and> a' \<le> u \<and> (a' - g) mod (2 * stepMs) = 0 \<and>
            (a < u \<or> end < u + stepMs \<or> above el (u + stepMs)))))"


section \<open>Sample elevation functions\<close>

text \<open>
  Elevation profiles for the concrete runs below, as functions of the time in
  milliseconds: a ramp rising through the horizon at 30 s; a single hump above the horizon
  from 30 s to 90 s, and the same hump with no answer at every other coarse sample
  (20 s, 60 s, 100 s, ...); a satellite above the horizon at the one instant 20 s; one that
  is always up, one that is always down; a function that answers at 20 s and 40 s only;
  and a satellite that is up three times, for 100 s each.
\<close>

definition ramp :: elevation where
  "ramp t = Some (of_int t - 30000)"

definition hump :: elevation where
  "hump t = Some (of_int ((t - 30000) * (90000 - t)) / 100000000)"

definition hump_gaps :: elevation where
  "hump_gaps t = (if (t - 20000) mod 40000 = 0 then None else hump t)"

definition spike :: elevation where
  "spike t = (if t = 20000 then Some 1 else Some (- 1))"

definition overhead :: elevation where
  "overhead t = Some 10"

definition below :: elevation where
  "below t = Some (- 5)"

definition gappy :: elevation where
  "gappy t = (if t = 20000 then Some 1 else if t = 40000 then Some (- 1) else None)"

definition three_passes :: elevation where
  "three_passes t =
     Some (if (100000 \<le> t \<and> t < 200000) \<or> (300000 \<le> t \<and> t < 400000) \<or>
              (500000 \<le> t \<and> t < 600000) then 1 else - 1)"

text \<open>
  A ramp at a present-day time: it rises through the horizon at the time value
  1 800 000 010 000 (in January 2027), one degree per millisecond.
\<close>

definition late_ramp :: elevation where
  "late_ramp t = Some (of_int t - 1800000010000)"

declare findMax_for.simps [simp del] scan_for.simps [simp del] bit_length.simps [simp del]


section \<open>Lemmas\<close>

subsection \<open>Dates and the bisection\<close>

lemma newDate_of_int: "newDate (of_int t) = t"
  by (simp add: newDate_def)

lemma newDate_between:
  assumes "of_int lo \<le> x" and "x \<le> of_int hi"
  shows "lo \<le> newDate x \<and> newDate x \<le> hi"
proof (cases "0 \<le> x")
  case True
  have "lo \<le> \<lfloor>x\<rfloor>" using assms(1) by (simp add: le_floor_iff)
  moreover have "\<lfloor>x\<rfloor> \<le> hi" using assms(2) by (simp add: floor_le_iff)
  ultimately show ?thesis using True by (simp add: newDate_def)
next
  case False
  have "lo \<le> \<lceil>x\<rceil>" using assms(1) by (simp add: le_ceiling_iff)
  moreover have "\<lceil>x\<rceil> \<le> hi" using assms(2) by (simp add: ceiling_le_iff)
  ultimately show ?thesis using False by (simp add: newDate_def)
qed

lemma newDate_near: "\<bar>of_int (newDate x) - x\<bar> < 1"
  unfolding newDate_def by (auto simp: abs_less_iff) linarith+

lemma bisect_body_bracket:
  assumes "bisect_body el tg (a, b, ea, eb) = Inr (a', b', ea', eb')"
    and "lo \<le> a" and "a \<le> b" and "b \<le> hi"
  shows "lo \<le> a' \<and> a' \<le> b' \<and> b' \<le> hi"
  using assms by (auto simp: Let_def split: option.splits if_splits)

lemma bisect_body_returns:
  assumes "bisect_body el tg (a, b, ea, eb) = Inl (Some r)"
  shows "r = newDate a"
  using assms by (auto simp: Let_def split: option.splits if_splits)

lemma bisect_at_bracket:
  assumes "bisect_at el tg n (a, b, ea, eb) = Some (a', b', ea', eb')"
    and "lo \<le> a" and "a \<le> b" and "b \<le> hi"
  shows "lo \<le> a' \<and> a' \<le> b' \<and> b' \<le> hi"
  using assms
proof (induction n arbitrary: a b ea eb)
  case 0
  then show ?case by simp
next
  case (Suc n)
  from Suc.prems(1) obtain a1 b1 ea1 eb1 where
    body: "bisect_body el tg (a, b, ea, eb) = Inr (a1, b1, ea1, eb1)"
    and rest: "bisect_at el tg n (a1, b1, ea1, eb1) = Some (a', b', ea', eb')"
    by (auto simp del: bisect_body.simps split: sum.splits)
  from bisect_body_bracket [OF body Suc.prems(2-4)]
  show ?case using Suc.IH [OF rest] by blast
qed

lemma bisect_for_bracket:
  assumes "bisect_for el tg n (a, b, ea, eb) = Some r"
    and "of_int lo \<le> a" and "a \<le> b" and "b \<le> of_int hi"
  shows "lo \<le> r \<and> r \<le> hi"
  using assms
proof (induction n arbitrary: a b ea eb)
  case 0
  have "of_int lo \<le> (a + b) / 2" "(a + b) / 2 \<le> of_int hi"
    using "0.prems"(2-4) by (simp_all add: field_simps)
  from newDate_between [OF this] show ?case using "0.prems"(1) by auto
next
  case (Suc n)
  show ?case
  proof (cases "bisect_body el tg (a, b, ea, eb)")
    case (Inl res)
    with Suc.prems(1) have "res = Some r" by (simp del: bisect_body.simps)
    with Inl have "r = newDate a" by (simp add: bisect_body_returns del: bisect_body.simps)
    moreover have "a \<le> of_int hi" using Suc.prems(3,4) by simp
    ultimately show ?thesis using newDate_between [OF Suc.prems(2)] by simp
  next
    case (Inr s')
    obtain a1 b1 ea1 eb1 where s': "s' = (a1, b1, ea1, eb1)" by (cases s') auto
    from Inr s' Suc.prems(1) have rest: "bisect_for el tg n (a1, b1, ea1, eb1) = Some r"
      by (simp del: bisect_body.simps)
    from bisect_body_bracket [OF Inr [unfolded s'] Suc.prems(2-4)]
    show ?thesis using Suc.IH [OF rest] by blast
  qed
qed

lemma bisectCrossingTime_bracket:
  assumes "bisectCrossingTime el t0 t1 tg iters = Some r" and "t0 \<le> t1"
  shows "t0 \<le> r \<and> r \<le> t1"
proof -
  from assms(1) obtain ea eb where
    "bisect_for el tg iters (of_int t0, of_int t1, ea, eb) = Some r"
    by (auto simp: bisectCrossingTime_def Let_def split: option.splits)
  from bisect_for_bracket [OF this, of t0 t1] assms(2) show ?thesis by simp
qed

lemma bisect_for_None:
  "bisect_for el tg n s = None \<longleftrightarrow> (\<exists>m \<in> set (bisect_mids el tg n s). el m = None)"
proof (induction n arbitrary: s)
  case 0
  show ?case by (cases s) simp
next
  case (Suc n)
  obtain a b ea eb where s: "s = (a, b, ea, eb)" by (cases s) auto
  show ?case
  proof (cases "el (newDate ((a + b) / 2))")
    case None
    then show ?thesis by (simp add: s Let_def)
  next
    case (Some em)
    show ?thesis
    proof (cases "bisect_body el tg (a, b, ea, eb)")
      case (Inl res)
      with Some have "res \<noteq> None" by (auto simp: Let_def split: if_splits)
      with Inl Some show ?thesis by (auto simp: s simp del: bisect_body.simps)
    next
      case (Inr s')
      with Some Suc.IH [of s'] show ?thesis by (simp add: s del: bisect_body.simps)
    qed
  qed
qed

lemma bisectCrossingTime_None:
  "bisectCrossingTime el t0 t1 tg iters = None \<longleftrightarrow>
     (\<exists>t \<in> set (bisect_calls el t0 t1 tg iters). el t = None)"
  by (cases "el t0"; cases "el t1")
     (simp_all add: bisectCrossingTime_def bisect_calls_def newDate_of_int bisect_for_None)

lemma newDate_near_real:
  "real_of_int (newDate x) - 1 < of_rat x" "of_rat x < real_of_int (newDate x) + 1"
proof -
  have "\<bar>of_int (newDate x) - x\<bar> < 1" by (rule newDate_near)
  then have "of_int (newDate x) - 1 < x" "x < of_int (newDate x) + 1" by linarith+
  then have "(of_rat (of_int (newDate x) - 1) :: real) < of_rat x"
    "(of_rat x :: real) < of_rat (of_int (newDate x) + 1)"
    by (simp_all only: of_rat_less)
  then show "real_of_int (newDate x) - 1 < of_rat x" "of_rat x < real_of_int (newDate x) + 1"
    by (simp_all add: of_rat_diff of_rat_add)
qed


subsection \<open>Rounding to binary64\<close>

lemma bit_length_0 [simp]: "bit_length 0 = 0"
  by (simp add: bit_length.simps)

lemma bit_length_upper: "n < 2 ^ bit_length n"
proof (induction n rule: bit_length.induct)
  case (1 n)
  show ?case
  proof (cases "n = 0")
    case True
    then show ?thesis by simp
  next
    case False
    with 1 have "n div 2 < 2 ^ bit_length (n div 2)" by simp
    then have "n < 2 * 2 ^ bit_length (n div 2)" by linarith
    with False show ?thesis by (subst bit_length.simps) simp
  qed
qed

lemma bit_length_lower: "0 < n \<Longrightarrow> 2 ^ (bit_length n - 1) \<le> n"
proof (induction n rule: bit_length.induct)
  case (1 n)
  from "1.prems" have n: "n \<noteq> 0" by simp
  show ?case
  proof (cases "n div 2 = 0")
    case True
    then have "bit_length n = 1" using n by (simp add: bit_length.simps)
    with "1.prems" show ?thesis by simp
  next
    case False
    with 1 n have "2 ^ (bit_length (n div 2) - 1) \<le> n div 2" by simp
    moreover have "0 < bit_length (n div 2)" using False by (subst bit_length.simps) simp
    ultimately have "2 ^ bit_length (n div 2) \<le> 2 * (n div 2)"
      by (cases "bit_length (n div 2)") simp_all
    then have "2 ^ bit_length (n div 2) \<le> n" by linarith
    with n show ?thesis by (subst bit_length.simps) simp
  qed
qed

lemma bit_length_eqI:
  assumes "2 ^ k \<le> n" and "n < 2 ^ Suc k"
  shows "bit_length n = Suc k"
proof -
  have pos: "0 < n" using assms(1) by (cases "n = 0") simp_all
  have "2 ^ (bit_length n - 1) < (2::nat) ^ Suc k"
    using bit_length_lower [OF pos] assms(2) by linarith
  then have "bit_length n - 1 < Suc k" by (rule power_less_imp_less_exp [rotated]) simp
  moreover have "(2::nat) ^ k < 2 ^ bit_length n"
    using bit_length_upper [of n] assms(1) by linarith
  then have "k < bit_length n" by (rule power_less_imp_less_exp [rotated]) simp
  ultimately show ?thesis by linarith
qed

lemma round_even_cases:
  "round_even y = \<lfloor>y\<rfloor> \<and> y - of_int \<lfloor>y\<rfloor> \<le> 1 / 2 \<or>
   round_even y = \<lfloor>y\<rfloor> + 1 \<and> 1 / 2 \<le> y - of_int \<lfloor>y\<rfloor>"
  unfolding round_even_def Let_def by (simp add: not_less)

lemma round_even_nearest: "\<bar>of_int (round_even y) - y\<bar> \<le> \<bar>of_int m - y\<bar>"
proof -
  define f where "f = \<lfloor>y\<rfloor>"
  define d where "d = y - of_int f"
  have d: "0 \<le> d" "d < 1" unfolding d_def f_def by linarith+
  have y: "y = of_int f + d" by (simp add: d_def)
  have far: "d \<le> \<bar>of_int m - y\<bar>" if "m \<le> f"
  proof -
    from that have "of_int m \<le> (of_int f :: rat)" by simp
    then show ?thesis using d by (simp add: y)
  qed
  have near: "1 - d \<le> \<bar>of_int m - y\<bar>" if "f + 1 \<le> m"
  proof -
    from that have "(of_int (f + 1) :: rat) \<le> of_int m" by (simp only: of_int_le_iff)
    then have "(of_int f :: rat) + 1 \<le> of_int m" by simp
    then show ?thesis using d by (simp add: y)
  qed
  have m: "m \<le> f \<or> f + 1 \<le> m" by linarith
  from round_even_cases [of y]
  show ?thesis
  proof
    assume "round_even y = \<lfloor>y\<rfloor> \<and> y - of_int \<lfloor>y\<rfloor> \<le> 1 / 2"
    then have r: "round_even y = f" and h: "d \<le> 1 / 2" by (simp_all add: f_def d_def)
    have "of_int (round_even y) - y = - d" by (simp add: r d_def)
    then have "\<bar>of_int (round_even y) - y\<bar> = d" using d by simp
    with m far near h show ?thesis by linarith
  next
    assume "round_even y = \<lfloor>y\<rfloor> + 1 \<and> 1 / 2 \<le> y - of_int \<lfloor>y\<rfloor>"
    then have r: "round_even y = f + 1" and h: "1 / 2 \<le> d" by (simp_all add: f_def d_def)
    have "of_int (round_even y) - y = 1 - d" by (simp add: r d_def)
    then have "\<bar>of_int (round_even y) - y\<bar> = 1 - d" using d by simp
    with m far near h show ?thesis by linarith
  qed
qed

lemma round_even_half: "\<bar>of_int (round_even y) - y\<bar> \<le> 1 / 2"
proof -
  have d: "0 \<le> y - of_int \<lfloor>y\<rfloor>" "y - of_int \<lfloor>y\<rfloor> < 1" by linarith+
  from round_even_cases [of y] d show ?thesis by auto
qed


lemma abs_less_bit_length: "\<bar>X\<bar> < 2 ^ bit_length (nat \<lfloor>\<bar>X\<bar>\<rfloor>)" for X :: rat
proof -
  let ?n = "nat \<lfloor>\<bar>X\<bar>\<rfloor>"
  have "\<bar>X\<bar> < of_int \<lfloor>\<bar>X\<bar>\<rfloor> + 1" by linarith
  also have "of_int \<lfloor>\<bar>X\<bar>\<rfloor> + 1 = (of_nat (Suc ?n) :: rat)" by simp
  also have "\<dots> \<le> of_nat (2 ^ bit_length ?n)"
    using bit_length_upper [of ?n] by (simp only: of_nat_le_iff Suc_le_eq)
  finally show ?thesis by simp
qed

lemma abs_ge_bit_length:
  "2 ^ (bit_length (nat \<lfloor>\<bar>X\<bar>\<rfloor>) - 1) \<le> \<bar>X\<bar>" if "0 < bit_length (nat \<lfloor>\<bar>X\<bar>\<rfloor>)" for X :: rat
proof -
  let ?n = "nat \<lfloor>\<bar>X\<bar>\<rfloor>"
  from that have "0 < ?n" by (cases "?n = 0") simp_all
  from bit_length_lower [OF this]
  have "(of_nat (2 ^ (bit_length ?n - 1)) :: rat) \<le> of_nat ?n" by (simp only: of_nat_le_iff)
  also have "(of_nat ?n :: rat) = of_int \<lfloor>\<bar>X\<bar>\<rfloor>" by simp
  also have "\<dots> \<le> \<bar>X\<bar>" by linarith
  finally show ?thesis by simp
qed

lemma round_sig_multiple:
  fixes X :: rat
  defines "q \<equiv> (2::int) ^ (bit_length (nat \<lfloor>\<bar>X\<bar>\<rfloor>) - 53)"
  shows "\<bar>of_int (round_sig X) - X\<bar> \<le> \<bar>of_int (M * q) - X\<bar>"
proof -
  have q: "0 < (of_int q :: rat)" by (simp add: q_def)
  have "\<bar>of_int (round_even (X / of_int q)) - X / of_int q\<bar> \<le> \<bar>of_int M - X / of_int q\<bar>"
    by (rule round_even_nearest)
  then have "\<bar>of_int (round_even (X / of_int q)) - X / of_int q\<bar> * of_int q \<le>
      \<bar>of_int M - X / of_int q\<bar> * of_int q"
    using q by (simp add: mult_right_mono)
  moreover have "\<bar>z - X / of_int q\<bar> * of_int q = \<bar>z * of_int q - X\<bar>" for z :: rat
  proof -
    have "\<bar>z - X / of_int q\<bar> * of_int q = \<bar>(z - X / of_int q) * of_int q\<bar>"
      using q by (simp add: abs_mult)
    also have "(z - X / of_int q) * of_int q = z * of_int q - X"
      using q by (simp add: field_simps)
    finally show ?thesis .
  qed
  ultimately show ?thesis by (simp add: round_sig_def q_def [symmetric])
qed

lemma round_sig_sig53: "sig53 (round_sig X)"
proof -
  define L where "L = bit_length (nat \<lfloor>\<bar>X\<bar>\<rfloor>)"
  define q where "q = (2::int) ^ (L - 53)"
  define N where "N = round_even (X / of_int q)"
  have q: "0 < (of_int q :: rat)" by (simp add: q_def)
  have Y: "round_sig X = N * q" by (simp add: round_sig_def N_def q_def L_def)
  have "\<bar>X\<bar> < 2 ^ L" unfolding L_def by (rule abs_less_bit_length)
  also have "(2::rat) ^ L \<le> 2 ^ 53 * of_int q"
  proof (cases "53 \<le> L")
    case True
    then have "(2::rat) ^ L = 2 ^ (53 + (L - 53))" by simp
    then show ?thesis by (simp only: power_add q_def of_int_power) simp
  next
    case False
    then have "(2::rat) ^ L \<le> 2 ^ 53" by (intro power_increasing) auto
    moreover have "q = 1" using False by (simp add: q_def)
    ultimately show ?thesis by simp
  qed
  finally have "\<bar>X\<bar> / of_int q < 2 ^ 53" using q by (simp add: field_simps)
  then have y: "\<bar>X / of_int q\<bar> < 2 ^ 53" using q by (simp add: abs_divide)
  have "\<bar>of_int N - X / of_int q\<bar> \<le> 1 / 2" unfolding N_def by (rule round_even_half)
  with y have "\<bar>(of_int N :: rat)\<bar> < 2 ^ 53 + 1" by linarith
  then have "(of_int \<bar>N\<bar> :: rat) < of_int (2 ^ 53 + 1)" by simp
  then have "\<bar>N\<bar> < 2 ^ 53 + 1" by (simp only: of_int_less_iff)
  then have N: "\<bar>N\<bar> \<le> 2 ^ 53" by linarith
  show ?thesis
  proof (cases "\<bar>N\<bar> = 2 ^ 53")
    case False
    with N have "\<bar>N\<bar> < 2 ^ 53" by linarith
    then show ?thesis unfolding sig53_def Y q_def by blast
  next
    case True
    then have "N = 2 ^ 53 \<or> N = - (2 ^ 53)" by linarith
    then have "N * q = (if 0 < N then 2 ^ 52 else - (2 ^ 52)) * 2 ^ Suc (L - 53)"
      by (auto simp: q_def)
    moreover have "\<bar>if 0 < N then 2 ^ 52 else - (2 ^ 52) :: int\<bar> < 2 ^ 53" by simp
    ultimately show ?thesis unfolding sig53_def Y by blast
  qed
qed

lemma round_sig_nearest:
  assumes "sig53 R"
  shows "\<bar>of_int (round_sig X) - X\<bar> \<le> \<bar>of_int R - X\<bar>"
proof -
  define L where "L = bit_length (nat \<lfloor>\<bar>X\<bar>\<rfloor>)"
  define q where "q = (2::int) ^ (L - 53)"
  from assms obtain k :: int and j :: nat where k: "\<bar>k\<bar> < 2 ^ 53" and R: "R = k * 2 ^ j"
    by (auto simp: sig53_def)
  note multiple = round_sig_multiple [of X, folded L_def, folded q_def]
  show ?thesis
  proof (cases "L - 53 \<le> j")
    case True
    then have "(2::int) ^ j = 2 ^ (j - (L - 53)) * 2 ^ (L - 53)"
      by (simp flip: power_add)
    then have "R = (k * 2 ^ (j - (L - 53))) * q" by (simp add: R q_def)
    with multiple [of "k * 2 ^ (j - (L - 53))"] show ?thesis by simp
  next
    case False
    then have jL: "Suc j \<le> L - 53" and L: "54 \<le> L" by simp_all
    define P :: rat where "P = 2 ^ (L - 1)"
    have "\<bar>R\<bar> = \<bar>k\<bar> * 2 ^ j" by (simp add: R abs_mult)
    also have "\<dots> < 2 ^ 53 * 2 ^ j" using k by simp
    also have "(2::int) ^ 53 * 2 ^ j = 2 ^ (53 + j)" by (simp add: power_add)
    also have "\<dots> \<le> 2 ^ (L - 1)" using jL L by (intro power_increasing) simp_all
    finally have "(of_int \<bar>R\<bar> :: rat) < of_int (2 ^ (L - 1))" by (simp only: of_int_less_iff)
    then have small: "\<bar>of_int R :: rat\<bar> < P" by (simp add: P_def)
    have "2 ^ (L - 1) \<le> \<bar>X\<bar>"
      unfolding L_def by (rule abs_ge_bit_length) (use L in \<open>simp add: L_def\<close>)
    then have big: "P \<le> \<bar>X\<bar>" by (simp only: P_def)
    define B :: int where "B = (if 0 \<le> X then 2 ^ 52 else - (2 ^ 52))"
    have "L - 1 = 52 + (L - 53)" using L by simp
    then have "P = 2 ^ (52 + (L - 53))" by (simp only: P_def)
    also have "\<dots> = of_int (2 ^ 52 * q)" by (simp add: power_add q_def)
    finally have pq: "of_int (2 ^ 52 * q) = P" by simp
    have "\<bar>of_int (B * q) - X\<bar> = \<bar>X\<bar> - P"
    proof (cases "0 \<le> X")
      case True
      then have "(of_int (B * q) :: rat) = P" using pq by (simp add: B_def)
      with big True show ?thesis by simp
    next
      case False
      then have "(of_int (B * q) :: rat) = - P" using pq by (simp add: B_def)
      with big False show ?thesis by simp
    qed
    also have "\<dots> < \<bar>X\<bar> - \<bar>of_int R\<bar>" using small by simp
    also have "\<dots> \<le> \<bar>of_int R - X\<bar>" by linarith
    finally show ?thesis using multiple [of B] by linarith
  qed
qed

lemma is_double_fl64: "is_double (fl64 x)"
proof -
  define S :: rat where "S = 2 ^ 1074"
  have S: "0 < S" by (simp add: S_def)
  have "fl64 x * S = of_int (round_sig (x * S))"
    unfolding fl64_def S_def [symmetric] using S by simp
  with round_sig_sig53 [of "x * S"] show ?thesis
    unfolding is_double_def S_def [symmetric] by blast
qed

lemma fl64_nearest:
  assumes "is_double r"
  shows "\<bar>fl64 x - x\<bar> \<le> \<bar>r - x\<bar>"
proof -
  define S :: rat where "S = 2 ^ 1074"
  have S: "0 < S" by (simp add: S_def)
  from assms [unfolded is_double_def, folded S_def]
  obtain R where R: "sig53 R" "r * S = of_int R" by blast
  have f: "fl64 x * S = of_int (round_sig (x * S))"
    unfolding fl64_def S_def [symmetric] using S by simp
  have "\<bar>of_int (round_sig (x * S)) - x * S\<bar> \<le> \<bar>of_int R - x * S\<bar>"
    by (rule round_sig_nearest [OF R(1)])
  then have "\<bar>(fl64 x - x) * S\<bar> \<le> \<bar>(r - x) * S\<bar>"
    by (simp only: f [symmetric] R(2) [symmetric] left_diff_distrib)
  then have "\<bar>fl64 x - x\<bar> * S \<le> \<bar>r - x\<bar> * S"
    using S by (simp only: abs_mult abs_of_pos)
  with S show ?thesis by (simp only: mult_le_cancel_right_pos)
qed

lemma sig53_small: "\<bar>n\<bar> \<le> 2 ^ 53 \<Longrightarrow> sig53 (n * 2 ^ j)" for n :: int
proof (cases "\<bar>n\<bar> = 2 ^ 53")
  case False
  assume "\<bar>n\<bar> \<le> 2 ^ 53"
  with False have "\<bar>n\<bar> < 2 ^ 53" by linarith
  then show ?thesis unfolding sig53_def by blast
next
  case True
  then have "n = 2 ^ 53 \<or> n = - (2 ^ 53)" by linarith
  then have "n * 2 ^ j = (if 0 < n then 2 ^ 52 else - (2 ^ 52)) * 2 ^ Suc j" by auto
  moreover have "\<bar>if 0 < n then 2 ^ 52 else - (2 ^ 52) :: int\<bar> < 2 ^ 53" by simp
  ultimately show ?thesis unfolding sig53_def by blast
qed

lemma is_double_of_int:
  assumes "\<bar>n\<bar> \<le> 2 ^ 53"
  shows "is_double (of_int n)"
proof -
  have "(of_int n :: rat) * 2 ^ 1074 = of_int (n * 2 ^ 1074)" by simp
  with sig53_small [OF assms, of 1074] show ?thesis unfolding is_double_def by blast
qed

lemma is_double_twice:
  assumes "is_double x"
  shows "is_double (2 * x)"
proof -
  from assms obtain k :: int and j :: nat where
    k: "\<bar>k\<bar> < 2 ^ 53" and x: "x * 2 ^ 1074 = of_int (k * 2 ^ j)"
    unfolding is_double_def sig53_def by blast
  have "2 * x * 2 ^ 1074 = 2 * (x * 2 ^ 1074)" by (simp only: mult.assoc)
  also have "\<dots> = of_int (k * 2 ^ Suc j)" by (simp only: x) simp
  finally show ?thesis using k unfolding is_double_def sig53_def by blast
qed

lemma fl64_between:
  assumes "is_double lo" and "is_double hi" and "lo \<le> x" and "x \<le> hi"
  shows "lo \<le> fl64 x \<and> fl64 x \<le> hi"
  using fl64_nearest [OF assms(1), of x] fl64_nearest [OF assms(2), of x] assms(3,4)
  by linarith

lemma fl64_id: "is_double x \<Longrightarrow> fl64 x = x"
  using fl64_between [of x x x] by simp

lemma mid64_between:
  assumes "is_double a" and "is_double b" and "a \<le> b"
  shows "a \<le> mid64 a b \<and> mid64 a b \<le> b"
proof -
  have "2 * a \<le> a + b" "a + b \<le> 2 * b" using assms(3) by simp_all
  from fl64_between [OF is_double_twice [OF assms(1)] is_double_twice [OF assms(2)] this]
  have "a \<le> fl64 (a + b) / 2" "fl64 (a + b) / 2 \<le> b" by simp_all
  from fl64_between [OF assms(1,2) this] show ?thesis by (simp add: mid64_def)
qed

lemma fl64_error_half:
  assumes "\<bar>x\<bar> \<le> 2 ^ 53"
  shows "\<bar>fl64 x - x\<bar> \<le> 1 / 2"
proof -
  define N where "N = round_even x"
  have near: "\<bar>of_int N - x\<bar> \<le> 1 / 2" unfolding N_def by (rule round_even_half)
  with assms have "\<bar>of_int N :: rat\<bar> < 2 ^ 53 + 1" by linarith
  then have "(of_int \<bar>N\<bar> :: rat) < of_int (2 ^ 53 + 1)" by simp
  then have "\<bar>N\<bar> < 2 ^ 53 + 1" by (simp only: of_int_less_iff)
  then have "\<bar>N\<bar> \<le> 2 ^ 53" by linarith
  from fl64_nearest [OF is_double_of_int [OF this], of x] near show ?thesis by linarith
qed

lemma fl64_error_one:
  assumes "\<bar>x\<bar> \<le> 2 ^ 54"
  shows "\<bar>fl64 x - x\<bar> \<le> 1"
proof -
  define N where "N = round_even (x / 2)"
  have near: "\<bar>of_int N - x / 2\<bar> \<le> 1 / 2" unfolding N_def by (rule round_even_half)
  from assms have "\<bar>x / 2\<bar> \<le> 2 ^ 53" by simp
  with near have "\<bar>of_int N :: rat\<bar> < 2 ^ 53 + 1" by linarith
  then have "(of_int \<bar>N\<bar> :: rat) < of_int (2 ^ 53 + 1)" by simp
  then have "\<bar>N\<bar> < 2 ^ 53 + 1" by (simp only: of_int_less_iff)
  then have "\<bar>N\<bar> \<le> 2 ^ 53" by linarith
  from fl64_nearest [OF is_double_twice [OF is_double_of_int [OF this]], of x] near
  show ?thesis by linarith
qed

lemma mid64_error:
  assumes "is_double a" and "is_double b" and "a \<le> b"
    and "\<bar>a\<bar> \<le> 2 ^ 53" and "\<bar>b\<bar> \<le> 2 ^ 53"
  shows "\<bar>mid64 a b - (a + b) / 2\<bar> \<le> 1"
proof -
  have "(2::rat) ^ 54 = 2 * 2 ^ 53" by simp
  with assms(4,5) have "\<bar>a + b\<bar> \<le> 2 ^ 54" by linarith
  from fl64_error_one [OF this] have "\<bar>(fl64 (a + b) - (a + b)) / 2\<bar> \<le> 1 / 2" by simp
  then have e1: "\<bar>fl64 (a + b) / 2 - (a + b) / 2\<bar> \<le> 1 / 2" by (simp add: diff_divide_distrib)
  have "2 * a \<le> a + b" "a + b \<le> 2 * b" using assms(3) by simp_all
  from fl64_between [OF is_double_twice [OF assms(1)] is_double_twice [OF assms(2)] this]
  have "a \<le> fl64 (a + b) / 2" "fl64 (a + b) / 2 \<le> b" by simp_all
  with assms(4,5) have "\<bar>fl64 (a + b) / 2\<bar> \<le> 2 ^ 53" by linarith
  from fl64_error_half [OF this] e1 show ?thesis unfolding mid64_def by linarith
qed

lemma fl64_binade:
  fixes x :: rat and e :: nat
  assumes "2 ^ e \<le> x" and "x < 2 ^ Suc e"
  shows "fl64 x = of_int (round_even (x * 2 ^ 52 / 2 ^ e)) * 2 ^ e / 2 ^ 52"
proof -
  define S :: rat where "S = 2 ^ 1074"
  define X where "X = x * S"
  have S: "0 < S" by (simp add: S_def)
  have S2: "S = 2 ^ 52 * 2 ^ 1022" unfolding S_def by (simp flip: power_add)
  have lo: "2 ^ (e + 1074) \<le> X" and hi: "X < 2 ^ Suc (e + 1074)"
    using assms S unfolding X_def S_def by (simp_all only: power_add power_Suc mult_le_cancel_right_pos mult_less_cancel_right_pos mult.assoc [symmetric])
  have pos: "0 \<le> X" using lo by (meson order_trans zero_le_numeral zero_le_power)
  define n where "n = nat \<lfloor>\<bar>X\<bar>\<rfloor>"
  have nX: "(of_nat n :: rat) = of_int \<lfloor>X\<rfloor>" using pos by (simp add: n_def)
  have "(of_int (2 ^ (e + 1074)) :: rat) \<le> X" using lo by simp
  then have "2 ^ (e + 1074) \<le> \<lfloor>X\<rfloor>" by (simp only: le_floor_iff)
  then have nlo: "2 ^ (e + 1074) \<le> n" using pos by (simp add: n_def le_nat_iff)
  have "X < of_int (2 ^ Suc (e + 1074))" using hi by simp
  then have "\<lfloor>X\<rfloor> < 2 ^ Suc (e + 1074)" by (simp only: floor_less_iff)
  then have nhi: "n < 2 ^ Suc (e + 1074)" using pos by (simp add: n_def nat_less_iff)
  have L: "bit_length n = Suc (e + 1074)" by (rule bit_length_eqI [OF nlo nhi])
  have q: "bit_length n - 53 = e + 1022" unfolding L by simp
  have "fl64 x = of_int (round_even (X / of_int (2 ^ (e + 1022))) * 2 ^ (e + 1022)) / S"
    unfolding fl64_def round_sig_def Let_def S_def [symmetric] X_def [symmetric] n_def [symmetric] q ..
  moreover have "X / of_int (2 ^ (e + 1022)) = x * 2 ^ 52 / 2 ^ e"
    unfolding X_def S2 by (simp add: power_add)
  moreover have "(of_int (k * 2 ^ (e + 1022)) :: rat) / S = of_int k * 2 ^ e / 2 ^ 52" for k
    unfolding S2 by (simp add: power_add)
  ultimately show ?thesis by (simp only:)
qed

lemma fl64_sum_now:
  "2199023255552 \<le> x \<Longrightarrow> x < 4398046511104 \<Longrightarrow> fl64 x = of_int (round_even (2048 * x)) / 2048"
  using fl64_binade [of 41 x] by simp

lemma fl64_half_now:
  "1099511627776 \<le> x \<Longrightarrow> x < 2199023255552 \<Longrightarrow> fl64 x = of_int (round_even (4096 * x)) / 4096"
  using fl64_binade [of 40 x] by simp


subsection \<open>The bisection in binary64\<close>

lemma bisect64_body_bracket:
  assumes "bisect64_body el tg (a, b, ea, eb) = Inr s'" and "bracket64 t0 t1 (a, b, ea, eb)"
  shows "bracket64 t0 t1 s'"
proof -
  from assms(2) have d: "is_double a" "is_double b" and ab: "a \<le> b"
    and lo: "of_int t0 \<le> a" and hi: "b \<le> of_int t1"
    by (simp_all add: bracket64_def)
  from mid64_between [OF d ab] have m: "a \<le> mid64 a b" "mid64 a b \<le> b"
    by (simp_all add: mid64_def)
  have dm: "is_double (mid64 a b)" unfolding mid64_def by (rule is_double_fl64)
  from assms(1) show ?thesis
    using d lo hi m dm
    by (auto simp: Let_def bracket64_def split: option.splits if_splits)
qed

lemma bisect64_body_width:
  assumes "bisect64_body el tg (a, b, ea, eb) = Inr (a', b', ea', eb')"
    and "bracket64 t0 t1 (a, b, ea, eb)"
    and "\<bar>t0\<bar> \<le> 2 ^ 53" and "\<bar>t1\<bar> \<le> 2 ^ 53"
  shows "b' - a' \<le> (b - a) / 2 + 1"
proof -
  from assms(2) have d: "is_double a" "is_double b" and ab: "a \<le> b"
    and lo: "of_int t0 \<le> a" and hi: "b \<le> of_int t1"
    by (simp_all add: bracket64_def)
  have "(of_int \<bar>t0\<bar> :: rat) \<le> of_int (2 ^ 53)" "(of_int \<bar>t1\<bar> :: rat) \<le> of_int (2 ^ 53)"
    using assms(3,4) by (simp_all only: of_int_le_iff)
  then have "\<bar>of_int t0 :: rat\<bar> \<le> 2 ^ 53" "\<bar>of_int t1 :: rat\<bar> \<le> 2 ^ 53" by simp_all
  with lo hi ab have "\<bar>a\<bar> \<le> 2 ^ 53" "\<bar>b\<bar> \<le> 2 ^ 53" by linarith+
  from mid64_error [OF d ab this]
  have m: "\<bar>mid64 a b - (a + b) / 2\<bar> \<le> 1" by (simp add: mid64_def)
  from assms(1) have "a' = mid64 a b \<and> b' = b \<or> a' = a \<and> b' = mid64 a b"
    by (auto simp: Let_def split: option.splits if_splits)
  with m show ?thesis by (auto simp: field_simps)
qed

lemma bisect64_body_returns:
  assumes "bisect64_body el tg (a, b, ea, eb) = Inl (Some r)"
  shows "r = newDate a"
  using assms by (auto simp: Let_def split: option.splits if_splits)

lemma bisect64_at_bracket:
  "bisect64_at el tg n s = Some s' \<Longrightarrow> bracket64 t0 t1 s \<Longrightarrow> bracket64 t0 t1 s'"
proof (induction n arbitrary: s)
  case 0
  then show ?case by simp
next
  case (Suc n)
  obtain a b ea eb where s: "s = (a, b, ea, eb)" by (cases s) auto
  from Suc.prems(1) obtain s1 where
    body: "bisect64_body el tg (a, b, ea, eb) = Inr s1"
    and rest: "bisect64_at el tg n s1 = Some s'"
    by (auto simp: s simp del: bisect64_body.simps split: sum.splits)
  from bisect64_body_bracket [OF body Suc.prems(2) [unfolded s]]
  show ?case using Suc.IH [OF rest] by blast
qed

lemma bisect64_at_width:
  assumes "\<bar>t0\<bar> \<le> 2 ^ 53" and "\<bar>t1\<bar> \<le> 2 ^ 53"
  shows "bisect64_at el tg n (a, b, ea, eb) = Some (a', b', ea', eb') \<Longrightarrow>
    bracket64 t0 t1 (a, b, ea, eb) \<Longrightarrow> b' - a' - 2 \<le> (b - a - 2) / 2 ^ n"
proof (induction n arbitrary: a b ea eb)
  case 0
  then show ?case by simp
next
  case (Suc n)
  from Suc.prems(1) obtain a1 b1 ea1 eb1 where
    body: "bisect64_body el tg (a, b, ea, eb) = Inr (a1, b1, ea1, eb1)"
    and rest: "bisect64_at el tg n (a1, b1, ea1, eb1) = Some (a', b', ea', eb')"
    by (auto simp del: bisect64_body.simps split: sum.splits)
  note br = bisect64_body_bracket [OF body Suc.prems(2)]
  have "b1 - a1 - 2 \<le> (b - a - 2) / 2"
    using bisect64_body_width [OF body Suc.prems(2) assms] by (simp add: diff_divide_distrib)
  then have "(b1 - a1 - 2) / 2 ^ n \<le> (b - a - 2) / 2 / 2 ^ n"
    by (rule divide_right_mono) simp
  also have "\<dots> = (b - a - 2) / 2 ^ Suc n" by simp
  finally show ?case using Suc.IH [OF rest br] by linarith
qed

lemma bisect64_for_bisect64_at:
  "bisect64_at el tg n s = Some (a, b, ea, eb) \<Longrightarrow>
     bisect64_for el tg n s = Some (newDate (mid64 a b))"
proof (induction n arbitrary: s)
  case 0
  then show ?case by simp
next
  case (Suc n)
  then show ?case by (auto simp del: bisect64_body.simps split: sum.splits)
qed

lemma bisect64_for_bracket:
  "bisect64_for el tg n s = Some r \<Longrightarrow> bracket64 t0 t1 s \<Longrightarrow> t0 \<le> r \<and> r \<le> t1"
proof (induction n arbitrary: s)
  case 0
  obtain a b ea eb where s: "s = (a, b, ea, eb)" by (cases s) auto
  from "0.prems"(2) have d: "is_double a" "is_double b" and ab: "a \<le> b"
    and lo: "of_int t0 \<le> a" and hi: "b \<le> of_int t1"
    by (simp_all add: bracket64_def s)
  from mid64_between [OF d ab] lo hi
  have "of_int t0 \<le> mid64 a b" "mid64 a b \<le> of_int t1"
    by (simp_all add: mid64_def)
  from newDate_between [OF this] "0.prems"(1) show ?case by (auto simp: s)
next
  case (Suc n)
  obtain a b ea eb where s: "s = (a, b, ea, eb)" by (cases s) auto
  show ?case
  proof (cases "bisect64_body el tg (a, b, ea, eb)")
    case (Inl res)
    with Suc.prems(1) have "res = Some r" by (simp add: s del: bisect64_body.simps)
    with Inl have "r = newDate a" by (simp add: bisect64_body_returns del: bisect64_body.simps)
    moreover from Suc.prems(2) have "of_int t0 \<le> a" "a \<le> of_int t1"
      by (auto simp: bracket64_def s)
    ultimately show ?thesis using newDate_between by simp
  next
    case (Inr s1)
    with Suc.prems(1) have rest: "bisect64_for el tg n s1 = Some r"
      by (simp add: s del: bisect64_body.simps)
    from bisect64_body_bracket [OF Inr Suc.prems(2) [unfolded s]]
    show ?thesis using Suc.IH [OF rest] by blast
  qed
qed

lemma bracket64_init:
  assumes "t0 \<le> t1" and "\<bar>t0\<bar> \<le> 2 ^ 53" and "\<bar>t1\<bar> \<le> 2 ^ 53"
  shows "bracket64 t0 t1 (of_int t0, of_int t1, ea, eb)"
  using assms by (simp add: bracket64_def is_double_of_int)

lemma bisectCrossingTime64_bracket:
  assumes "bisectCrossingTime64 el t0 t1 tg iters = Some r"
    and "t0 \<le> t1" and "\<bar>t0\<bar> \<le> 2 ^ 53" and "\<bar>t1\<bar> \<le> 2 ^ 53"
  shows "t0 \<le> r \<and> r \<le> t1"
proof -
  from assms(1) obtain ea eb where
    "bisect64_for el tg iters (of_int t0, of_int t1, ea, eb) = Some r"
    by (auto simp: bisectCrossingTime64_def Let_def split: option.splits)
  from bisect64_for_bracket [OF this bracket64_init [OF assms(2-4)]] show ?thesis .
qed

lemma bisect64_body_straddles:
  assumes sig: "\<sigma> = 1 \<or> \<sigma> = - 1"
    and el: "\<forall>t. t0 \<le> t \<and> t \<le> t1 \<longrightarrow>
      (\<exists>e. el t = Some e \<and> sgn (of_rat e) = \<sigma> * sgn (of_int t - c))"
    and inv: "straddles \<sigma> c (a, b, ea, eb)"
    and br: "bracket64 t0 t1 (a, b, ea, eb)"
  shows "\<exists>s'. bisect64_body el 0 (a, b, ea, eb) = Inr s' \<and> straddles \<sigma> c s'"
proof -
  define m where "m = mid64 a b"
  from inv have ab: "a \<le> b" and ac: "of_rat a - 1 < c" and cb: "c < of_rat b + 1"
    and sea: "sgn (real_of_rat ea) = - \<sigma>"
    by (simp_all add: straddles_def)
  from br have d: "is_double a" "is_double b"
    and lo: "of_int t0 \<le> a" and hi: "b \<le> of_int t1"
    by (simp_all add: bracket64_def)
  from mid64_between [OF d ab] have am: "a \<le> m" and mb: "m \<le> b"
    by (simp_all add: mid64_def m_def)
  have "of_int t0 \<le> m" "m \<le> of_int t1" using am mb lo hi by linarith+
  from newDate_between [OF this] el obtain em where
    em: "el (newDate m) = Some em"
    and sem: "sgn (real_of_rat em) = \<sigma> * sgn (of_int (newDate m) - c)"
    by blast
  have ea0: "ea \<noteq> 0" using sea sig by auto
  have sides: "(ea > 0 \<and> em > 0 \<or> ea < 0 \<and> em < 0) \<longleftrightarrow> sgn (real_of_rat em) = - \<sigma>"
  proof -
    have "sgn (real_of_rat ea) = of_rat (sgn ea)" "sgn (real_of_rat em) = of_rat (sgn em)"
      by (simp_all add: sgn_if)
    then show ?thesis using sea sig by (auto simp: sgn_if split: if_splits)
  qed
  show ?thesis
  proof (cases "sgn (real_of_rat em) = - \<sigma>")
    case True
    with sem sig have "real_of_int (newDate m) < c" by (auto simp: sgn_if split: if_splits)
    with newDate_near_real(2) [of m] have "of_rat m - 1 < c" by linarith
    then have "straddles \<sigma> c (m, b, em, eb)"
      using mb cb True by (simp add: straddles_def)
    moreover from sides True have "ea > 0 \<and> em > 0 \<or> ea < 0 \<and> em < 0" by simp
    then have "bisect64_body el 0 (a, b, ea, eb) = Inr (m, b, em, eb)"
      using em ea0 by (simp add: m_def [symmetric] Let_def)
    ultimately show ?thesis by blast
  next
    case False
    with sem sig have "c \<le> real_of_int (newDate m)" by (auto simp: sgn_if split: if_splits)
    with newDate_near_real(1) [of m] have "c < of_rat m + 1" by linarith
    then have "straddles \<sigma> c (a, m, ea, em)"
      using am ac sea by (simp add: straddles_def)
    moreover from sides False have "\<not> (ea > 0 \<and> em > 0 \<or> ea < 0 \<and> em < 0)" by simp
    then have "bisect64_body el 0 (a, b, ea, eb) = Inr (a, m, ea, em)"
      using em ea0 by (auto simp: m_def [symmetric] Let_def)
    ultimately show ?thesis by blast
  qed
qed

lemma bisect64_at_straddles:
  assumes sig: "\<sigma> = 1 \<or> \<sigma> = - 1"
    and el: "\<forall>t. t0 \<le> t \<and> t \<le> t1 \<longrightarrow>
      (\<exists>e. el t = Some e \<and> sgn (of_rat e) = \<sigma> * sgn (of_int t - c))"
  shows "straddles \<sigma> c s \<Longrightarrow> bracket64 t0 t1 s \<Longrightarrow>
    \<exists>s'. bisect64_at el 0 n s = Some s' \<and> straddles \<sigma> c s'"
proof (induction n arbitrary: s)
  case 0
  then show ?case by simp
next
  case (Suc n)
  obtain a b ea eb where s: "s = (a, b, ea, eb)" by (cases s) auto
  from bisect64_body_straddles [OF sig el Suc.prems [unfolded s]] obtain s1 where
    body: "bisect64_body el 0 (a, b, ea, eb) = Inr s1" and inv: "straddles \<sigma> c s1"
    by blast
  from bisect64_body_bracket [OF body Suc.prems(2) [unfolded s]]
  have "bracket64 t0 t1 s1" .
  from Suc.IH [OF inv this] show ?case
    using body by (simp add: s del: bisect64_body.simps)
qed

lemma straddles_result64:
  assumes "straddles \<sigma> c (a, b, ea, eb)" and "a \<le> m" and "m \<le> b"
  shows "\<bar>real_of_int (newDate m) - c\<bar> < of_rat (b - a) + 2"
proof -
  from assms have ab: "a \<le> b" and ac: "of_rat a - 1 < c" and cb: "c < of_rat b + 1"
    by (simp_all add: straddles_def)
  have "real_of_rat a \<le> of_rat m" "real_of_rat m \<le> of_rat b"
    using assms(2,3) by (simp_all add: of_rat_less_eq)
  moreover have "real_of_rat (b - a) = of_rat b - of_rat a" by (simp add: of_rat_diff)
  ultimately show ?thesis
    using newDate_near_real [of m] ac cb by linarith
qed

lemma bisect64_accuracy:
  fixes c :: real
  assumes sig: "\<sigma> = 1 \<or> \<sigma> = - 1"
    and t0c: "of_int t0 \<le> c" and ct1: "c \<le> of_int t1"
    and scale: "t1 - t0 \<le> 24 * 3600 * 1000"
    and r0: "\<bar>t0\<bar> \<le> 8640000000000000" and r1: "\<bar>t1\<bar> \<le> 8640000000000000"
    and el: "\<forall>t. t0 \<le> t \<and> t \<le> t1 \<longrightarrow>
      (\<exists>e. el t = Some e \<and> sgn (of_rat e) = \<sigma> * sgn (of_int t - c))"
  shows "(\<exists>r. bisectCrossingTime64 el t0 t1 0 25 = Some r \<and> \<bar>of_int r - c\<bar> < 1000) \<and>
    (\<forall>ea0 eb0. el t0 = Some ea0 \<and> el t1 = Some eb0 \<and> of_int t0 < c \<longrightarrow>
       (\<exists>a b ea eb. bisect64_at el 0 25 (of_int t0, of_int t1, ea0, eb0) = Some (a, b, ea, eb) \<and>
          0 \<le> b - a \<and> b - a \<le> of_int (t1 - t0) / 2 ^ 25 + 2))"
proof -
  have t01: "t0 \<le> t1" using t0c ct1 by linarith
  have p0: "\<bar>t0\<bar> \<le> 2 ^ 53" and p1: "\<bar>t1\<bar> \<le> 2 ^ 53" using r0 r1 by simp_all
  from el t01 obtain ea0 where ea0: "el t0 = Some ea0"
    and sa: "sgn (real_of_rat ea0) = \<sigma> * sgn (of_int t0 - c)" by auto
  from el t01 obtain eb0 where eb0: "el t1 = Some eb0" by auto
  note br0 = bracket64_init [OF t01 p0 p1, of ea0 eb0]
  have run: "\<exists>a b ea eb. bisect64_at el 0 25 (of_int t0, of_int t1, ea0, eb0) = Some (a, b, ea, eb) \<and>
      0 \<le> b - a \<and> b - a \<le> of_int (t1 - t0) / 2 ^ 25 + 2 \<and> straddles \<sigma> c (a, b, ea, eb) \<and>
      bracket64 t0 t1 (a, b, ea, eb)"
    if less: "of_int t0 < c"
  proof -
    have "straddles \<sigma> c (of_int t0, of_int t1, ea0, eb0)"
      using less ct1 t01 sa by (simp add: straddles_def)
    from bisect64_at_straddles [OF sig el this br0, of 25] obtain s' where
      at: "bisect64_at el 0 25 (of_int t0, of_int t1, ea0, eb0) = Some s'"
      and inv: "straddles \<sigma> c s'" by auto
    obtain a b ea eb where s': "s' = (a, b, ea, eb)" by (cases s') auto
    from bisect64_at_bracket [OF at br0] have br: "bracket64 t0 t1 (a, b, ea, eb)"
      by (simp add: s')
    from bisect64_at_width [OF p0 p1 at [unfolded s'] br0]
    have "b - a - 2 \<le> (of_int t1 - of_int t0 - 2) / 2 ^ 25" .
    also have "\<dots> \<le> of_int (t1 - t0) / 2 ^ 25" by simp
    finally have "b - a \<le> of_int (t1 - t0) / 2 ^ 25 + 2" by linarith
    moreover have "0 \<le> b - a" using br by (simp add: bracket64_def)
    ultimately show ?thesis using at inv s' br by simp
  qed
  have first: "\<exists>r. bisectCrossingTime64 el t0 t1 0 25 = Some r \<and> \<bar>of_int r - c\<bar> < 1000"
  proof (cases "of_int t0 < c")
    case True
    from run [OF True] obtain a b ea eb where
      at: "bisect64_at el 0 25 (of_int t0, of_int t1, ea0, eb0) = Some (a, b, ea, eb)"
      and w: "b - a \<le> of_int (t1 - t0) / 2 ^ 25 + 2" and inv: "straddles \<sigma> c (a, b, ea, eb)"
      and br: "bracket64 t0 t1 (a, b, ea, eb)"
      by blast
    have "(of_int (t1 - t0) :: rat) / 2 ^ 25 \<le> of_int (24 * 3600 * 1000) / 2 ^ 25"
      using scale by (simp add: divide_right_mono)
    also have "\<dots> < 3" by simp
    finally have "b - a < 5" using w by linarith
    then have "real_of_rat (b - a) < of_rat 5" by (simp only: of_rat_less)
    then have small: "real_of_rat (b - a) < 5" by simp
    from br have d: "is_double a" "is_double b" "a \<le> b" by (simp_all add: bracket64_def)
    from mid64_between [OF d]
    have "a \<le> mid64 a b" "mid64 a b \<le> b" by (simp_all add: mid64_def)
    from straddles_result64 [OF inv this] small
    have "\<bar>real_of_int (newDate (mid64 a b)) - c\<bar> < 1000" by linarith
    moreover have "bisectCrossingTime64 el t0 t1 0 25 = Some (newDate (mid64 a b))"
      using bisect64_for_bisect64_at [OF at] ea0 eb0
      by (simp add: bisectCrossingTime64_def newDate_of_int)
    ultimately show ?thesis by blast
  next
    case False
    with t0c have eq: "of_int t0 = c" by simp
    with sa have z: "ea0 = 0" by (simp add: sgn_if split: if_splits)
    from br0 have d: "is_double (of_int t0 :: rat)" "is_double (of_int t1 :: rat)"
      "(of_int t0 :: rat) \<le> of_int t1" by (simp_all add: bracket64_def)
    from mid64_between [OF d]
    have "of_int t0 \<le> mid64 (of_int t0) (of_int t1)"
      "mid64 (of_int t0) (of_int t1) \<le> of_int t1" by (simp_all add: mid64_def)
    from newDate_between [OF this] el obtain em where
      "el (newDate (mid64 (of_int t0) (of_int t1))) = Some em" by blast
    then have "bisectCrossingTime64 el t0 t1 0 25 = Some t0"
      using ea0 eb0 z
      by (simp add: bisectCrossingTime64_def newDate_of_int eval_nat_numeral Let_def)
    with eq show ?thesis by simp
  qed
  show ?thesis
  proof (intro conjI allI impI)
    show "\<exists>r. bisectCrossingTime64 el t0 t1 0 25 = Some r \<and> \<bar>of_int r - c\<bar> < 1000" by (rule first)
  next
    fix ea0' eb0'
    assume h: "el t0 = Some ea0' \<and> el t1 = Some eb0' \<and> of_int t0 < c"
    with ea0 eb0 have "ea0' = ea0" "eb0' = eb0" by simp_all
    with run h show "\<exists>a b ea eb. bisect64_at el 0 25 (of_int t0, of_int t1, ea0', eb0') = Some (a, b, ea, eb) \<and>
          0 \<le> b - a \<and> b - a \<le> of_int (t1 - t0) / 2 ^ 25 + 2" by blast
  qed
qed


subsection \<open>The peak finder and the two crossing blocks\<close>

lemma findMax_for_bounds:
  "lo \<le> peak_t best \<Longrightarrow> lo \<le> ms \<Longrightarrow> peak_t best \<le> hi \<Longrightarrow> end \<le> hi \<Longrightarrow> b0 \<le> elev best \<Longrightarrow>
   lo \<le> peak_t (findMax_for el end ms best) \<and> peak_t (findMax_for el end ms best) \<le> hi \<and>
   b0 \<le> elev (findMax_for el end ms best)"
proof (induction el "end" ms best rule: findMax_for.induct)
  case (1 el "end" ms best)
  show ?case
  proof (cases "ms \<le> end")
    case True
    let ?best' = "case el ms of None \<Rightarrow> best
      | Some e \<Rightarrow> if e > elev best then \<lparr>peak_t = ms, elev = e\<rparr> else best"
    have "lo \<le> peak_t ?best'" "peak_t ?best' \<le> hi" "b0 \<le> elev ?best'"
      using "1.prems" True by (auto split: option.splits)
    with "1.IH" [OF True] "1.prems" True show ?thesis
      by (subst (1 2 3) findMax_for.simps) simp
  next
    case False
    with "1.prems" show ?thesis by (subst (1 2 3) findMax_for.simps) simp
  qed
qed

lemma findMaxElevation_bounds:
  assumes "start \<le> end"
  shows "start \<le> peak_t (findMaxElevation el start end) \<and>
    peak_t (findMaxElevation el start end) \<le> end \<and> - 999 \<le> elev (findMaxElevation el start end)"
  unfolding findMaxElevation_def
  by (rule findMax_for_bounds) (use assms in simp_all)

lemma passes_ordered_mono:
  "passes_ordered bound ps \<Longrightarrow> bound \<le> bound' \<Longrightarrow> passes_ordered bound' ps"
  by (fastforce simp: passes_ordered_def)

lemma passes_ordered_snoc:
  assumes "passes_ordered bound ps" and "\<forall>q \<in> set ps. los q \<le> aos p"
    and "aos p < los p" and "aos p \<le> tca p" and "tca p \<le> los p" and "- 999 \<le> maxElev p"
    and "los p \<le> bound'" and "bound \<le> bound'"
  shows "passes_ordered bound' (ps @ [p])"
  using assms by (fastforce simp: passes_ordered_def sorted_wrt_append)

lemma crossing_up_cases:
  "crossing_up el t e s = s \<and> \<not> (\<not> inPass s \<and> prevE s \<le> 0 \<and> e > 0) \<or>
   \<not> inPass s \<and> prevE s \<le> 0 \<and> e > 0 \<and>
     (\<exists>a. crossing_up el t e s = s\<lparr>inPass := True, currentAOS := Some a\<rparr> \<and>
        (prevT s \<le> t \<longrightarrow> prevT s \<le> a \<and> a \<le> t))"
proof (cases "\<not> inPass s \<and> prevE s \<le> 0 \<and> e > 0")
  case True
  show ?thesis
  proof (cases "bisectCrossingTime el (prevT s) t 0 25")
    case None
    with True show ?thesis by (auto simp: crossing_up_def)
  next
    case (Some d)
    with True bisectCrossingTime_bracket [OF Some] show ?thesis
      by (auto simp: crossing_up_def)
  qed
next
  case False
  then show ?thesis by (auto simp: crossing_up_def)
qed

lemma crossing_down_cases:
  "crossing_down el n t e s = (False, s) \<and> \<not> (inPass s \<and> prevE s > 0 \<and> e \<le> 0) \<or>
   inPass s \<and> prevE s > 0 \<and> e \<le> 0 \<and>
    (crossing_down el n t e s = (False, s\<lparr>inPass := False, currentAOS := None\<rparr>) \<or>
     (\<exists>a p. currentAOS s = Some a \<and> aos p = a \<and> a < los p \<and>
        (prevT s \<le> t \<longrightarrow> prevT s \<le> los p \<and> los p \<le> t) \<and>
        a \<le> tca p \<and> tca p \<le> los p \<and> - 999 \<le> maxElev p \<and>
        crossing_down el n t e s =
          (if int (length (passes s)) + 1 \<ge> n
           then (True, s\<lparr>inPass := False, passes := passes s @ [p]\<rparr>)
           else (False, s\<lparr>inPass := False, currentAOS := None, passes := passes s @ [p]\<rparr>))))"
proof (cases "inPass s \<and> prevE s > 0 \<and> e \<le> 0")
  case False
  then show ?thesis by (auto simp: crossing_down_def)
next
  case fire: True
  define finalLOS where
    "finalLOS = (case bisectCrossingTime el (prevT s) t 0 25 of None \<Rightarrow> t | Some d \<Rightarrow> d)"
  have fl: "prevT s \<le> t \<longrightarrow> prevT s \<le> finalLOS \<and> finalLOS \<le> t"
    using bisectCrossingTime_bracket [of el "prevT s" t 0 25]
    by (auto simp: finalLOS_def split: option.splits)
  show ?thesis
  proof (cases "currentAOS s")
    case None
    with fire show ?thesis by (simp add: crossing_down_def Let_def)
  next
    case (Some a)
    show ?thesis
    proof (cases "finalLOS > a")
      case False
      with fire Some show ?thesis
        by (simp add: crossing_down_def Let_def finalLOS_def [symmetric])
    next
      case True
      define best where "best = findMaxElevation el a finalLOS"
      define p where "p = \<lparr>aos = a, los = finalLOS, tca = peak_t best, maxElev = elev best\<rparr>"
      have "a \<le> finalLOS" using True by simp
      from findMaxElevation_bounds [OF this, of el]
      have "a \<le> tca p" "tca p \<le> los p" "- 999 \<le> maxElev p"
        by (simp_all add: p_def best_def)
      moreover have "crossing_down el n t e s =
          (if int (length (passes s)) + 1 \<ge> n
           then (True, s\<lparr>inPass := False, passes := passes s @ [p]\<rparr>)
           else (False, s\<lparr>inPass := False, currentAOS := None, passes := passes s @ [p]\<rparr>))"
        using fire Some True
        by (simp add: crossing_down_def Let_def finalLOS_def [symmetric] best_def [symmetric]
            p_def [symmetric])
      moreover have "aos p = a" "a < los p" "los p = finalLOS" using True by (simp_all add: p_def)
      ultimately show ?thesis using fire Some fl by auto
    qed
  qed
qed

subsection \<open>The cap on the number of passes\<close>

lemma crossing_up_fields [simp]:
  "passes (crossing_up el t e s) = passes s"
  "prevT (crossing_up el t e s) = prevT s"
  "prevE (crossing_up el t e s) = prevE s"
  by (simp_all add: crossing_up_def)

lemma crossing_down_cap:
  assumes "k \<le> n" and "crossing_down el k t e s = (bk, sk)"
    and "crossing_down el n t e s = (bn, sn)"
  shows "passes sk = passes sn \<and> (bn \<longrightarrow> bk \<and> sk = sn) \<and> (\<not> bk \<longrightarrow> \<not> bn \<and> sk = sn)"
  using assms by (auto simp: crossing_down_def Let_def split: if_splits option.splits)

lemma scan_body_cap:
  assumes "k \<le> n" and "scan_body el k t s = (bk, sk)" and "scan_body el n t s = (bn, sn)"
  shows "passes sk = passes sn \<and> (bn \<longrightarrow> bk \<and> sk = sn) \<and> (\<not> bk \<longrightarrow> \<not> bn \<and> sk = sn)"
proof (cases "el t")
  case None
  with assms show ?thesis by (auto simp: scan_body_def)
next
  case (Some e)
  obtain bk' sk' where k: "crossing_down el k t e (crossing_up el t e s) = (bk', sk')"
    by (cases "crossing_down el k t e (crossing_up el t e s)") auto
  obtain bn' sn' where n: "crossing_down el n t e (crossing_up el t e s) = (bn', sn')"
    by (cases "crossing_down el n t e (crossing_up el t e s)") auto
  from crossing_down_cap [OF assms(1) k n] assms(2,3) Some k n show ?thesis
    by (auto simp: scan_body_def split: if_splits bool.splits)
qed

lemma crossing_down_passes:
  assumes "crossing_down el n t e s = (brk, s')"
  shows "(brk \<longrightarrow> (\<exists>p. passes s' = passes s @ [p]) \<and> int (length (passes s')) \<ge> n) \<and>
    (\<not> brk \<longrightarrow> passes s' = passes s \<or>
       (\<exists>p. passes s' = passes s @ [p]) \<and> int (length (passes s')) < n)"
  using assms by (auto simp: crossing_down_def Let_def split: if_splits option.splits)

lemma scan_body_passes:
  assumes "scan_body el n t s = (brk, s')"
  shows "(brk \<longrightarrow> (\<exists>p. passes s' = passes s @ [p]) \<and> int (length (passes s')) \<ge> n) \<and>
    (\<not> brk \<longrightarrow> passes s' = passes s \<or>
       (\<exists>p. passes s' = passes s @ [p]) \<and> int (length (passes s')) < n)"
proof (cases "el t")
  case None
  with assms show ?thesis by (auto simp: scan_body_def)
next
  case (Some e)
  obtain b1 s1 where d: "crossing_down el n t e (crossing_up el t e s) = (b1, s1)"
    by (cases "crossing_down el n t e (crossing_up el t e s)") auto
  from crossing_down_passes [OF d] assms Some d show ?thesis
    by (auto simp: scan_body_def split: if_splits bool.splits)
qed

lemma scan_for_prefix:
  "\<exists>ys. passes (scan_for el n end tMs s) = passes s @ ys"
proof (induction el n "end" tMs s rule: scan_for.induct)
  case (1 el n "end" tMs s)
  show ?case
  proof (cases "tMs \<le> end")
    case False
    then show ?thesis by (subst scan_for.simps) simp
  next
    case True
    obtain brk s' where body: "scan_body el n tMs s = (brk, s')"
      by (cases "scan_body el n tMs s") auto
    from scan_body_passes [OF body] obtain ys where ys: "passes s' = passes s @ ys" 
      by (cases brk) auto
    show ?thesis
    proof (cases brk)
      case True
      with \<open>tMs \<le> end\<close> body ys show ?thesis by (subst scan_for.simps) simp
    next
      case False
      from "1.IH" [OF \<open>tMs \<le> end\<close> body [unfolded False, symmetric]] False
      obtain zs where "passes (scan_for el n end (tMs + stepMs) s') = passes s' @ zs"
        by auto
      with \<open>tMs \<le> end\<close> body ys False show ?thesis by (subst scan_for.simps) simp
    qed
  qed
qed

lemma scan_for_cap:
  "k \<le> n \<Longrightarrow> int (length (passes s)) < k \<Longrightarrow>
    passes (scan_for el k end tMs s) =
      (if int (length (passes (scan_for el n end tMs s))) \<ge> k
       then take (nat k) (passes (scan_for el n end tMs s))
       else passes (scan_for el n end tMs s))"
proof (induction el k "end" tMs s rule: scan_for.induct)
  case (1 el k "end" tMs s)
  note kn = "1.prems"(1)
  show ?case
  proof (cases "tMs \<le> end")
    case False
    then have "scan_for el k end tMs s = s" "scan_for el n end tMs s = s"
      by (simp_all add: scan_for.simps)
    with "1.prems" show ?thesis by simp
  next
    case True
    obtain bk sk where bodyk: "scan_body el k tMs s = (bk, sk)"
      by (cases "scan_body el k tMs s") auto
    obtain bn sn where bodyn: "scan_body el n tMs s = (bn, sn)"
      by (cases "scan_body el n tMs s") auto
    note rel = scan_body_cap [OF kn bodyk bodyn]
    note pk = scan_body_passes [OF bodyk]
    show ?thesis
    proof (cases bk)
      case brk: True
      then have resk: "scan_for el k end tMs s = sk"
        using True bodyk by (subst scan_for.simps) simp
      from pk brk "1.prems" have len: "int (length (passes sk)) = k" by auto
      obtain zs where zs: "passes (scan_for el n end tMs s) = passes sk @ zs"
      proof (cases bn)
        case True
        then have "scan_for el n end tMs s = sn"
          using \<open>tMs \<le> end\<close> bodyn by (subst scan_for.simps) simp
        with rel that [of "[]"] show ?thesis by simp
      next
        case False
        then have "scan_for el n end tMs s = scan_for el n end (tMs + stepMs) sn"
          using \<open>tMs \<le> end\<close> bodyn by (subst scan_for.simps) simp
        with scan_for_prefix [of el n "end" "tMs + stepMs" sn] rel that show ?thesis by auto
      qed
      from len have "nat k = length (passes sk)" by simp
      with resk zs len show ?thesis by simp
    next
      case nobrk: False
      with rel have bn: "\<not> bn" and eq: "sn = sk" by simp_all
      from pk nobrk "1.prems" have "int (length (passes sk)) < k" by auto
      from "1.IH" [OF True bodyk [unfolded nobrk, symmetric] _ kn this] nobrk
      have "passes (scan_for el k end (tMs + stepMs) sk) =
        (if int (length (passes (scan_for el n end (tMs + stepMs) sk))) \<ge> k
         then take (nat k) (passes (scan_for el n end (tMs + stepMs) sk))
         else passes (scan_for el n end (tMs + stepMs) sk))" by simp
      moreover have "scan_for el k end tMs s = scan_for el k end (tMs + stepMs) sk"
        using True bodyk nobrk by (subst scan_for.simps) simp
      moreover have "scan_for el n end tMs s = scan_for el n end (tMs + stepMs) sk"
        using True bodyn bn eq by (subst scan_for.simps) simp
      ultimately show ?thesis by simp
    qed
  qed
qed

lemma scan_for_length:
  "int (length (passes s)) < max n 1 \<Longrightarrow>
     int (length (passes (scan_for el n end tMs s))) \<le> max n 1"
proof (induction el n "end" tMs s rule: scan_for.induct)
  case (1 el n "end" tMs s)
  show ?case
  proof (cases "tMs \<le> end")
    case False
    with "1.prems" show ?thesis by (subst scan_for.simps) simp
  next
    case True
    obtain brk s' where body: "scan_body el n tMs s = (brk, s')"
      by (cases "scan_body el n tMs s") auto
    note p = scan_body_passes [OF body]
    show ?thesis
    proof (cases brk)
      case True
      with p "1.prems" have "int (length (passes s')) \<le> max n 1" by auto
      with \<open>tMs \<le> end\<close> body True show ?thesis by (subst scan_for.simps) simp
    next
      case False
      with p "1.prems" have "int (length (passes s')) < max n 1" by auto
      from "1.IH" [OF True body [unfolded False, symmetric] _ this] False
      have "int (length (passes (scan_for el n end (tMs + stepMs) s'))) \<le> max n 1" by simp
      with True body False show ?thesis by (subst scan_for.simps) simp
    qed
  qed
qed

subsection \<open>The invariant of the coarse scan\<close>

lemma scan_body_inv:
  assumes inv: "scan_inv tMs s" and body: "scan_body el n tMs s = (brk, s')"
  shows "passes_ordered tMs (passes s') \<and> (\<not> brk \<longrightarrow> scan_inv (tMs + stepMs) s')"
proof (cases "el tMs")
  case None
  with body have "s' = s" "\<not> brk" by (auto simp: scan_body_def)
  with inv show ?thesis
    by (auto simp: scan_inv_def stepMs_def intro: passes_ordered_mono)
next
  case (Some e)
  from inv have lt: "prevT s < tMs" and ord: "passes_ordered (prevT s) (passes s)"
    and cur: "\<And>a. currentAOS s = Some a \<Longrightarrow> a \<le> prevT s \<and> (\<forall>p \<in> set (passes s). los p \<le> a)"
    by (simp_all add: scan_inv_def)
  have ord': "passes_ordered tMs (passes s)" using ord lt by (auto intro: passes_ordered_mono)
  have below: "\<forall>p \<in> set (passes s). los p \<le> prevT s" using ord by (simp add: passes_ordered_def)
  define u where "u = crossing_up el tMs e s"
  have body': "(case crossing_down el n tMs e u of
             (True, s') \<Rightarrow> (True, s')
           | (False, s') \<Rightarrow> (False, s'\<lparr>prevT := tMs, prevE := e\<rparr>)) = (brk, s')"
    using body Some by (simp add: scan_body_def u_def)
  from crossing_up_cases [of el tMs e s]
  show ?thesis
  proof (elim disjE conjE exE)
    assume same: "crossing_up el tMs e s = s"
    from crossing_down_cases [of el n tMs e s]
    show ?thesis
    proof (elim disjE conjE exE)
      assume "crossing_down el n tMs e s = (False, s)"
      with body' same have "s' = s\<lparr>prevT := tMs, prevE := e\<rparr>" "\<not> brk"
        by (auto simp: u_def)
      with ord' lt cur below show ?thesis
        by (auto simp: scan_inv_def stepMs_def)
    next
      assume "crossing_down el n tMs e s = (False, s\<lparr>inPass := False, currentAOS := None\<rparr>)"
      with body' same have "s' = s\<lparr>inPass := False, currentAOS := None, prevT := tMs, prevE := e\<rparr>" "\<not> brk"
        by (auto simp: u_def)
      with ord' show ?thesis by (simp add: scan_inv_def stepMs_def)
    next
      fix a p
      assume a: "currentAOS s = Some a" and p: "aos p = a" "a < los p"
        "prevT s \<le> tMs \<longrightarrow> prevT s \<le> los p \<and> los p \<le> tMs"
        "a \<le> tca p" "tca p \<le> los p" "- 999 \<le> maxElev p"
        and down: "crossing_down el n tMs e s =
          (if int (length (passes s)) + 1 \<ge> n
           then (True, s\<lparr>inPass := False, passes := passes s @ [p]\<rparr>)
           else (False, s\<lparr>inPass := False, currentAOS := None, passes := passes s @ [p]\<rparr>))"
      have "passes_ordered tMs (passes s @ [p])"
        using ord cur [OF a] p lt by (intro passes_ordered_snoc [of "prevT s"]) auto
      moreover have "passes s' = passes s @ [p]"
        using body' same down by (auto simp: u_def split: if_splits)
      moreover have "\<not> brk \<Longrightarrow> s' = s\<lparr>inPass := False, currentAOS := None, passes := passes s @ [p],
           prevT := tMs, prevE := e\<rparr>"
        using body' same down by (auto simp: u_def split: if_splits)
      ultimately show ?thesis by (auto simp: scan_inv_def stepMs_def)
    qed
  next
    fix a
    assume cond: "\<not> inPass s" "prevE s \<le> 0" "0 < e"
      and up: "crossing_up el tMs e s = s\<lparr>inPass := True, currentAOS := Some a\<rparr>"
      and a: "prevT s \<le> tMs \<longrightarrow> prevT s \<le> a \<and> a \<le> tMs"
    have "crossing_down el n tMs e u = (False, u)"
      using cond up by (simp add: crossing_down_def u_def)
    with body' up have "s' = s\<lparr>inPass := True, currentAOS := Some a, prevT := tMs, prevE := e\<rparr>" "\<not> brk"
      by (auto simp: u_def)
    with ord' a lt below show ?thesis by (auto simp: scan_inv_def stepMs_def)
  qed
qed

lemma scan_for_ordered:
  "scan_inv tMs s \<Longrightarrow> \<exists>bound. passes_ordered bound (passes (scan_for el n end tMs s))"
proof (induction el n "end" tMs s rule: scan_for.induct)
  case (1 el n "end" tMs s)
  show ?case
  proof (cases "tMs \<le> end")
    case False
    with "1.prems" show ?thesis
      by (subst scan_for.simps) (auto simp: scan_inv_def)
  next
    case True
    obtain brk s' where body: "scan_body el n tMs s = (brk, s')"
      by (cases "scan_body el n tMs s") auto
    note step = scan_body_inv [OF "1.prems" body]
    show ?thesis
    proof (cases brk)
      case True
      with \<open>tMs \<le> end\<close> body step show ?thesis by (subst scan_for.simps) auto
    next
      case False
      with step have "scan_inv (tMs + stepMs) s'" by simp
      from "1.IH" [OF True body [unfolded False, symmetric] _ this] False
      show ?thesis using True body by (subst scan_for.simps) simp
    qed
  qed
qed

lemma scan_init_inv: "scan_inv (start + stepMs) (scan_init el start)"
  by (simp add: scan_inv_def scan_init_def Let_def stepMs_def passes_ordered_def)

lemma scan_passes_ordered: "\<exists>bound. passes_ordered bound (scan_passes el start n sh)"
  unfolding scan_passes_def Let_def by (rule scan_for_ordered) (rule scan_init_inv)

lemma passes_ordered_ascending:
  assumes "passes_ordered bound ps"
  shows "sorted_wrt (\<lambda>p q. aos p < aos q) ps"
proof -
  from assms have "sorted_wrt (\<lambda>p q. los p \<le> aos q) ps" "\<forall>p \<in> set ps. aos p < los p"
    by (simp_all add: passes_ordered_def)
  then show ?thesis by (induction ps) fastforce+
qed

lemma window_narrow:
  fixes lo :: int
  assumes "\<forall>t. lo \<le> t \<and> t \<le> hi \<longrightarrow> P t" and "lo \<le> lo'"
  shows "\<forall>t. lo' \<le> t \<and> t \<le> hi \<longrightarrow> P t"
  using assms by (meson order_trans)


lemma scan_body_quiet:
  assumes "\<forall>e. el t = Some e \<longrightarrow> \<not> (inPass s \<and> prevE s > 0 \<and> e \<le> 0)"
    and "scan_body el n t s = (brk, s')"
  shows "\<not> brk \<and> passes s' = passes s"
  using assms
  by (auto simp: scan_body_def crossing_down_def crossing_up_def split: option.splits if_splits)

lemma scan_for_positive:
  "\<forall>t. tMs \<le> t \<and> t \<le> end \<longrightarrow> (\<forall>e. el t = Some e \<longrightarrow> e > 0) \<Longrightarrow>
     passes (scan_for el n end tMs s) = passes s"
proof (induction el n "end" tMs s rule: scan_for.induct)
  case (1 el n "end" tMs s)
  show ?case
  proof (cases "tMs \<le> end")
    case False
    then show ?thesis by (subst scan_for.simps) simp
  next
    case True
    obtain brk s' where body: "scan_body el n tMs s = (brk, s')"
      by (cases "scan_body el n tMs s") auto
    have "\<forall>e. el tMs = Some e \<longrightarrow> \<not> (inPass s \<and> prevE s > 0 \<and> e \<le> 0)"
      using "1.prems" True by fastforce
    from scan_body_quiet [OF this body] have nb: "\<not> brk" and same: "passes s' = passes s"
      by simp_all
    have "\<forall>t. tMs + stepMs \<le> t \<and> t \<le> end \<longrightarrow> (\<forall>e. el t = Some e \<longrightarrow> e > 0)"
      by (rule window_narrow [OF "1.prems"]) (simp add: stepMs_def)
    from "1.IH" [OF True body [symmetric] _ this] nb same
    show ?thesis using True body by (subst scan_for.simps) simp
  qed
qed

lemma scan_body_below:
  assumes "\<forall>e. el t = Some e \<longrightarrow> e \<le> 0" and "\<not> inPass s"
    and "scan_body el n t s = (brk, s')"
  shows "\<not> brk \<and> passes s' = passes s \<and> \<not> inPass s'"
  using assms
  by (auto simp: scan_body_def crossing_down_def crossing_up_def split: option.splits if_splits)

lemma scan_for_below:
  "\<forall>t. tMs \<le> t \<and> t \<le> end \<longrightarrow> (\<forall>e. el t = Some e \<longrightarrow> e \<le> 0) \<Longrightarrow> \<not> inPass s \<Longrightarrow>
     passes (scan_for el n end tMs s) = passes s"
proof (induction el n "end" tMs s rule: scan_for.induct)
  case (1 el n "end" tMs s)
  show ?case
  proof (cases "tMs \<le> end")
    case False
    then show ?thesis by (subst scan_for.simps) simp
  next
    case True
    obtain brk s' where body: "scan_body el n tMs s = (brk, s')"
      by (cases "scan_body el n tMs s") auto
    have "\<forall>e. el tMs = Some e \<longrightarrow> e \<le> 0" using "1.prems"(1) True by fastforce
    from scan_body_below [OF this "1.prems"(2) body]
    have nb: "\<not> brk" and same: "passes s' = passes s" and out: "\<not> inPass s'" by simp_all
    have "\<forall>t. tMs + stepMs \<le> t \<and> t \<le> end \<longrightarrow> (\<forall>e. el t = Some e \<longrightarrow> e \<le> 0)"
      by (rule window_narrow [OF "1.prems"(1)]) (simp add: stepMs_def)
    from "1.IH" [OF True body [symmetric] _ this out] nb same
    show ?thesis using True body by (subst scan_for.simps) simp
  qed
qed

subsection \<open>The peak of the fine samples\<close>

lemma fine_grid_gap:
  assumes "(ms - start) mod 5000 = 0" and "ms \<le> e1" and "e1 < ms + 5000"
  shows "fine_grid start e1 = fine_grid start ms"
proof -
  have "t \<le> ms" if t: "(t - start) mod 5000 = 0" "t \<le> e1" for t
  proof (rule ccontr)
    assume "\<not> t \<le> ms"
    then have pos: "0 < t - ms" by simp
    have "5000 dvd t - start" "5000 dvd ms - start"
      using t(1) assms(1) by (simp_all add: mod_eq_0_iff_dvd)
    from dvd_diff [OF this] have "5000 dvd t - ms" by simp
    from zdvd_imp_le [OF this pos] t(2) assms(3) show False by simp
  qed
  then show ?thesis using assms(2) by (auto simp: fine_grid_def)
qed

lemma fine_grid_insert:
  assumes "(ms - start) mod 5000 = 0" and "start \<le> ms"
  shows "fine_grid start ms = insert ms (fine_grid start (ms - 1))"
  using assms by (auto simp: fine_grid_def)

lemma is_peak_step:
  assumes good: "is_peak el start S best" and new: "\<forall>t \<in> S. t < ms"
    and above: "\<forall>e. el ms = Some e \<longrightarrow> - 999 < e"
  shows "is_peak el start (insert ms S)
    (case el ms of None \<Rightarrow> best
     | Some e \<Rightarrow> if e > elev best then \<lparr>peak_t = ms, elev = e\<rparr> else best)"
proof (cases "el ms")
  case None
  with good show ?thesis by (auto simp: is_peak_def)
next
  case (Some e)
  show ?thesis
  proof (cases "e > elev best")
    case True
    with good Some show ?thesis by (fastforce simp: is_peak_def)
  next
    case False
    from above Some have "- 999 < e" by simp
    with False have ne: "best \<noteq> \<lparr>peak_t = start, elev = - 999\<rparr>" by auto
    with good have seen: "peak_t best \<in> S" "el (peak_t best) = Some (elev best)"
      by (auto simp: is_peak_def)
    with new have "peak_t best < ms" by simp
    with good Some False seen show ?thesis by (auto simp: is_peak_def)
  qed
qed

lemma findMax_for_peak:
  "is_peak el start (fine_grid start (ms - 1)) best \<Longrightarrow> (ms - start) mod 5000 = 0 \<Longrightarrow>
   start \<le> ms \<Longrightarrow> \<forall>t \<in> fine_grid start end. \<forall>e. el t = Some e \<longrightarrow> - 999 < e \<Longrightarrow>
   is_peak el start (fine_grid start (max end (ms - 1))) (findMax_for el end ms best)"
proof (induction el "end" ms best rule: findMax_for.induct)
  case (1 el "end" ms best)
  show ?case
  proof (cases "ms \<le> end")
    case False
    then have "max end (ms - 1) = ms - 1" by simp
    with False "1.prems"(1) show ?thesis by (subst findMax_for.simps) simp
  next
    case True
    let ?best' = "case el ms of None \<Rightarrow> best
      | Some e \<Rightarrow> if e > elev best then \<lparr>peak_t = ms, elev = e\<rparr> else best"
    have "ms \<in> fine_grid start end" using True "1.prems"(2,3) by (simp add: fine_grid_def)
    with "1.prems"(4) have above: "\<forall>e. el ms = Some e \<longrightarrow> - 999 < e" by blast
    have "\<forall>t \<in> fine_grid start (ms - 1). t < ms" by (simp add: fine_grid_def)
    from is_peak_step [OF "1.prems"(1) this above]
    have "is_peak el start (fine_grid start ms) ?best'"
      by (simp add: fine_grid_insert [OF "1.prems"(2,3)])
    moreover have "fine_grid start (ms + 5 * 1000 - 1) = fine_grid start ms"
      by (rule fine_grid_gap [OF "1.prems"(2)]) simp_all
    ultimately have "is_peak el start (fine_grid start (ms + 5 * 1000 - 1)) ?best'" by simp
    moreover have "(ms + 5 * 1000 - start) mod 5000 = 0"
    proof -
      have "ms + 5 * 1000 - start = (ms - start) + 5000" by simp
      then show ?thesis using "1.prems"(2) by (simp only: mod_add_self2)
    qed
    moreover have "start \<le> ms + 5 * 1000" using "1.prems"(3) by simp
    ultimately have "is_peak el start (fine_grid start (max end (ms + 5 * 1000 - 1)))
        (findMax_for el end (ms + 5 * 1000) ?best')"
      using "1.prems"(4) by (intro "1.IH" [OF True])
    moreover have "fine_grid start (max end (ms + 5 * 1000 - 1)) = fine_grid start end"
    proof (cases "ms + 5 * 1000 - 1 \<le> end")
      case True
      then show ?thesis by (simp add: max_def)
    next
      case False
      then have "max end (ms + 5 * 1000 - 1) = ms + 5 * 1000 - 1" by simp
      moreover have "fine_grid start (ms + 5 * 1000 - 1) = fine_grid start ms"
        by (rule fine_grid_gap [OF "1.prems"(2)]) simp_all
      moreover have "fine_grid start end = fine_grid start ms"
        by (rule fine_grid_gap [OF "1.prems"(2) True]) (use False in simp)
      ultimately show ?thesis by simp
    qed
    moreover have "max end (ms - 1) = end" using True by simp
    ultimately show ?thesis using True by (subst findMax_for.simps) simp
  qed
qed

lemma findMaxElevation_is_peak:
  assumes "\<forall>t \<in> fine_grid start end. \<forall>e. el t = Some e \<longrightarrow> - 999 < e"
  shows "is_peak el start (fine_grid start end) (findMaxElevation el start end)"
proof (cases "start \<le> end")
  case True
  have "fine_grid start (start - 1) = {}" by (auto simp: fine_grid_def)
  then have "is_peak el start (fine_grid start (start - 1)) \<lparr>peak_t = start, elev = - 999\<rparr>"
    by (simp add: is_peak_def)
  from findMax_for_peak [OF this _ _ assms] True show ?thesis
    by (simp add: findMaxElevation_def max_def)
next
  case False
  then have "fine_grid start end = {}" by (auto simp: fine_grid_def)
  moreover have "findMaxElevation el start end = \<lparr>peak_t = start, elev = - 999\<rparr>"
    using False by (simp add: findMaxElevation_def findMax_for.simps)
  ultimately show ?thesis by (simp add: is_peak_def)
qed

lemma findMaxElevation_first_max:
  assumes "\<exists>ms \<in> fine_grid start end. el ms \<noteq> None"
    and "\<forall>ms \<in> fine_grid start end. \<forall>e. el ms = Some e \<longrightarrow> - 999 < e"
  shows "peak_t (findMaxElevation el start end) \<in> fine_grid start end \<and>
    el (peak_t (findMaxElevation el start end)) = Some (elev (findMaxElevation el start end)) \<and>
    (\<forall>ms \<in> fine_grid start end. \<forall>e. el ms = Some e \<longrightarrow>
       e \<le> elev (findMaxElevation el start end) \<and>
       (e = elev (findMaxElevation el start end) \<longrightarrow> peak_t (findMaxElevation el start end) \<le> ms))"
proof -
  let ?r = "findMaxElevation el start end"
  from findMaxElevation_is_peak [OF assms(2)]
  have every: "\<forall>ms \<in> fine_grid start end. \<forall>e. el ms = Some e \<longrightarrow>
      e \<le> elev ?r \<and> (e = elev ?r \<longrightarrow> peak_t ?r \<le> ms)"
    and alt: "(\<forall>ms \<in> fine_grid start end. el ms = None) \<or>
      peak_t ?r \<in> fine_grid start end \<and> el (peak_t ?r) = Some (elev ?r)"
    by (auto simp: is_peak_def)
  from assms(1) alt have "peak_t ?r \<in> fine_grid start end \<and> el (peak_t ?r) = Some (elev ?r)"
    by auto
  with every show ?thesis by simp
qed

subsection \<open>The search with gaps\<close>

lemma above_Some: "el t = Some e \<Longrightarrow> above el t = (e > 0)"
  by (simp add: above_def)

lemma scan_for_continue:
  "tMs \<le> end \<Longrightarrow> scan_body el n tMs s = (False, s1) \<Longrightarrow>
     scan_for el n end tMs s = scan_for el n end (tMs + stepMs) s1"
  by (subst scan_for.simps) simp

lemma scan_for_break:
  "tMs \<le> end \<Longrightarrow> scan_body el n tMs s = (True, s1) \<Longrightarrow> scan_for el n end tMs s = s1"
  by (subst scan_for.simps) simp

lemma scan_for_done: "end < tMs \<Longrightarrow> scan_for el n end tMs s = s"
  by (subst scan_for.simps) simp

lemma scan_body_null: "el t = None \<Longrightarrow> scan_body el n t s = (False, s)"
  by (simp add: scan_body_def)

lemma scan_body_same:
  assumes "el t = Some e" and "inPass s = (prevE s > 0)" and "(e > 0) = (prevE s > 0)"
  shows "scan_body el n t s = (False, s\<lparr>prevT := t, prevE := e\<rparr>)"
proof -
  from assms have "crossing_up el t e s = s" by (auto simp: crossing_up_def)
  moreover from assms have "crossing_down el n t e s = (False, s)"
    by (auto simp: crossing_down_def)
  ultimately show ?thesis using assms(1) by (simp add: scan_body_def)
qed

lemma scan_body_up:
  assumes "el t = Some e" and "\<not> inPass s" and "prevE s \<le> 0" and "e > 0"
    and "a = (case bisectCrossingTime el (prevT s) t 0 25 of None \<Rightarrow> t | Some d \<Rightarrow> d)"
  shows "scan_body el n t s =
    (False, s\<lparr>inPass := True, currentAOS := Some a, prevT := t, prevE := e\<rparr>)"
proof -
  from assms have up: "crossing_up el t e s = s\<lparr>inPass := True, currentAOS := Some a\<rparr>"
    by (simp add: crossing_up_def)
  have "\<not> prevE (s\<lparr>inPass := True, currentAOS := Some a\<rparr>) > 0" using assms(3) by simp
  then have "crossing_down el n t e (s\<lparr>inPass := True, currentAOS := Some a\<rparr>) =
      (False, s\<lparr>inPass := True, currentAOS := Some a\<rparr>)"
    by (simp only: crossing_down_def simp_thms if_False)
  with up show ?thesis using assms(1) by (simp add: scan_body_def)
qed

lemma scan_body_down:
  assumes "el t = Some e" and "inPass s" and "prevE s > 0" and "e \<le> 0"
    and "currentAOS s = Some a"
    and "d = (case bisectCrossingTime el (prevT s) t 0 25 of None \<Rightarrow> t | Some d \<Rightarrow> d)"
    and "a < d"
    and "p = \<lparr>aos = a, los = d, tca = peak_t (findMaxElevation el a d),
           maxElev = elev (findMaxElevation el a d)\<rparr>"
  shows "scan_body el n t s =
    (if int (length (passes s)) + 1 \<ge> n
     then (True, s\<lparr>inPass := False, passes := passes s @ [p]\<rparr>)
     else (False, s\<lparr>inPass := False, currentAOS := None, passes := passes s @ [p],
             prevT := t, prevE := e\<rparr>))"
proof -
  from assms(2) have up: "crossing_up el t e s = s" by (simp add: crossing_up_def)
  have down: "crossing_down el n t e s =
    (if int (length (passes s)) + 1 \<ge> n
     then (True, s\<lparr>inPass := False, passes := passes s @ [p]\<rparr>)
     else (False, s\<lparr>inPass := False, currentAOS := None, passes := passes s @ [p]\<rparr>))"
    using assms(2-5,7)
    unfolding crossing_down_def Let_def assms(6) [symmetric]
    by (simp add: assms(8))
  show ?thesis using assms(1) by (simp add: scan_body_def up down)
qed

lemma crossing_time_bracket:
  assumes "t0 \<le> t1"
  shows "t0 \<le> (case bisectCrossingTime el t0 t1 0 25 of None \<Rightarrow> t1 | Some d \<Rightarrow> d) \<and>
    (case bisectCrossingTime el t0 t1 0 25 of None \<Rightarrow> t1 | Some d \<Rightarrow> d) \<le> t1"
proof (cases "bisectCrossingTime el t0 t1 0 25")
  case None
  with assms show ?thesis by simp
next
  case (Some d)
  with bisectCrossingTime_bracket [OF Some assms] show ?thesis by simp
qed

lemma gapped_odd:
  assumes "(u - start) mod (2 * stepMs) = 0"
  shows "gapped start el (u + stepMs) = None"
proof -
  from assms have "(u - start) mod 40000 = 0" by (simp add: stepMs_def)
  have "(u + 20000 - start) mod 40000 = ((u - start) mod 40000 + 20000) mod 40000"
    by (simp only: mod_add_left_eq) (simp add: algebra_simps)
  with \<open>(u - start) mod 40000 = 0\<close> have "(u + 20000 - start) mod 40000 = 20000" by simp
  then show ?thesis by (simp add: gapped_def stepMs_def)
qed

lemma gapped_even:
  "(u - start) mod (2 * stepMs) = 0 \<Longrightarrow> gapped start el u = el u"
  by (simp add: gapped_def stepMs_def)

lemma bisect_gapped:
  assumes "(u - start) mod (2 * stepMs) = 0"
  shows "bisectCrossingTime (gapped start el) u (u + 2 * stepMs) 0 25 = None"
proof -
  have m: "(of_int u + of_int (u + 2 * stepMs)) / 2 = (of_int (u + stepMs) :: rat)" by simp
  have "bisect_for (gapped start el) 0 (Suc 24) (of_int u, of_int (u + 2 * stepMs), ea, eb) = None"
    for ea eb
    using gapped_odd [OF assms, of el]
    by (simp only: bisect_for.simps bisect_body.simps m Let_def newDate_of_int) simp
  then have "bisect_for (gapped start el) 0 25 (of_int u, of_int (u + 2 * stepMs), ea, eb) = None"
    for ea eb
    by (simp only: eval_nat_numeral)
  then show ?thesis
    by (cases "gapped start el u"; cases "gapped start el (u + 2 * stepMs)")
       (simp_all only: bisectCrossingTime_def Let_def newDate_of_int prod.case option.case)
qed

lemma same_crossings_snoc:
  assumes "list_all2 (same_crossings start) ps ps'" and "same_crossings start p p'"
  shows "list_all2 (same_crossings start) (ps @ [p]) (ps' @ [p'])"
  using assms by (simp add: list_all2_appendI)

lemma coupled_block:
  assumes e1: "el (u + stepMs) = Some e1" and e2: "el (u + 2 * stepMs) = Some e2"
    and inside: "u + 2 * stepMs \<le> end"
    and even: "(u - start) mod (2 * stepMs) = 0"
    and cp: "coupled start el end u s s'"
    and iso1: "above el (u + stepMs) = above el u \<or> above el (u + stepMs) = above el (u + 2 * stepMs)"
    and iso2: "u + 2 * stepMs < end \<longrightarrow>
      above el (u + 2 * stepMs) = above el (u + stepMs) \<or>
      above el (u + 2 * stepMs) = above el (u + 2 * stepMs + stepMs)"
  shows "(\<exists>s2 s2'. scan_for el n end (u + stepMs) s = scan_for el n end (u + 2 * stepMs + stepMs) s2 \<and>
       scan_for (gapped start el) n end (u + stepMs) s' =
         scan_for (gapped start el) n end (u + 2 * stepMs + stepMs) s2' \<and>
       coupled start el end (u + 2 * stepMs) s2 s2') \<or>
    list_all2 (same_crossings start) (passes (scan_for el n end (u + stepMs) s))
      (passes (scan_for (gapped start el) n end (u + stepMs) s'))"
proof -
  define t1 where "t1 = u + stepMs"
  define t2 where "t2 = u + 2 * stepMs"
  define el' where "el' = gapped start el"
  have t12: "t1 + stepMs = t2" "u < t1" "t1 < t2" "t1 \<le> end" "t2 \<le> end" "t2 = u + 40000"
    "t1 = u + 20000"
    using inside by (simp_all add: t1_def t2_def stepMs_def)
  note e1 = e1 [folded t1_def] and e2 = e2 [folded t2_def]
  from cp have pT: "prevT s = u" "prevT s' = u" and eu: "el u = Some (prevE s)"
    and pE: "prevE s' = prevE s" and iP: "inPass s = (prevE s > 0)" "inPass s' = (prevE s > 0)"
    and ps: "list_all2 (same_crossings start) (passes s) (passes s')"
    by (simp_all add: coupled_def)
  have len: "length (passes s') = length (passes s)" using ps by (simp add: list_all2_lengthD)
  have ab: "above el u = (prevE s > 0)" "above el t1 = (e1 > 0)" "above el t2 = (e2 > 0)"
    using eu e1 e2 by (simp_all add: above_Some)
  note iso1 = iso1 [folded t1_def t2_def, unfolded ab]
  have even2: "(t2 - start) mod (2 * stepMs) = 0"
  proof -
    have "(t2 - start) mod 40000 = ((u - start) mod 40000 + 40000) mod 40000"
      by (simp only: mod_add_left_eq) (simp add: t12 algebra_simps)
    with even show ?thesis by (simp add: stepMs_def)
  qed
  have g1: "el' t1 = None" unfolding el'_def t1_def by (rule gapped_odd [OF even])
  have g2: "el' t2 = Some e2" unfolding el'_def using gapped_even [OF even2] e2 by simp
  have gb: "bisectCrossingTime el' u t2 0 25 = None"
    unfolding el'_def t2_def by (rule bisect_gapped [OF even])
  have skip: "scan_for el' n end t1 s' = scan_for el' n end t2 s'"
    using scan_for_continue [OF t12(4) scan_body_null [of el' t1, OF g1]] t12(1) by simp
  have next_up: "t2 < end \<Longrightarrow> e2 > 0 \<Longrightarrow> \<not> e1 > 0 \<Longrightarrow> above el (t2 + stepMs)"
    using iso2 [folded t2_def t1_def, unfolded ab] by blast
  have result: ?thesis
    if "scan_for el n end t1 s = scan_for el n end (t2 + stepMs) s2"
      and "scan_for el' n end t2 s' = scan_for el' n end (t2 + stepMs) s2'"
      and "coupled start el end t2 s2 s2'" for s2 s2'
    using that skip unfolding el'_def t1_def t2_def by metis
  have stop: ?thesis
    if "list_all2 (same_crossings start) (passes (scan_for el n end t1 s))
      (passes (scan_for el' n end t2 s'))"
    using that skip unfolding el'_def t1_def t2_def by simp
  show ?thesis
  proof (cases "prevE s > 0")
    case False
    then have out: "\<not> inPass s" "\<not> inPass s'" "prevE s \<le> 0" "prevE s' \<le> 0"
      using iP pE by simp_all
    show ?thesis
    proof (cases "e1 > 0")
      case e1n: False
      define s1 where "s1 = s\<lparr>prevT := t1, prevE := e1\<rparr>"
      have b1: "scan_body el n t1 s = (False, s1)"
        unfolding s1_def by (rule scan_body_same) (use e1 iP False e1n in simp_all)
      have f1: "scan_for el n end t1 s = scan_for el n end t2 s1"
        using scan_for_continue [OF t12(4) b1] t12(1) by simp
      show ?thesis
      proof (cases "e2 > 0")
        case e2n: False
        define s2 where "s2 = s1\<lparr>prevT := t2, prevE := e2\<rparr>"
        define s2' where "s2' = s'\<lparr>prevT := t2, prevE := e2\<rparr>"
        have "scan_body el n t2 s1 = (False, s2)"
          unfolding s2_def by (rule scan_body_same) (use e2 out e1n e2n in \<open>simp_all add: s1_def\<close>)
        from scan_for_continue [OF t12(5) this] f1
        have r1: "scan_for el n end t1 s = scan_for el n end (t2 + stepMs) s2" by simp
        have "scan_body el' n t2 s' = (False, s2')"
          unfolding s2'_def by (rule scan_body_same) (use g2 out e2n in simp_all)
        from scan_for_continue [OF t12(5) this]
        have r2: "scan_for el' n end t2 s' = scan_for el' n end (t2 + stepMs) s2'" .
        have "coupled start el end t2 s2 s2'"
          using e2 e2n ps out by (simp add: coupled_def s2_def s2'_def s1_def)
        from result [OF r1 r2 this] show ?thesis .
      next
        case e2p: True
        define a where "a = (case bisectCrossingTime el t1 t2 0 25 of None \<Rightarrow> t2 | Some d \<Rightarrow> d)"
        have abr: "t1 \<le> a" "a \<le> t2"
          using crossing_time_bracket [of t1 t2 el] t12 by (simp_all add: a_def)
        define s2 where "s2 = s1\<lparr>inPass := True, currentAOS := Some a, prevT := t2, prevE := e2\<rparr>"
        define s2' where "s2' = s'\<lparr>inPass := True, currentAOS := Some t2, prevT := t2, prevE := e2\<rparr>"
        have "scan_body el n t2 s1 = (False, s2)"
          unfolding s2_def
          by (rule scan_body_up) (use e2 out e1n e2p in \<open>simp_all add: s1_def a_def\<close>)
        from scan_for_continue [OF t12(5) this] f1
        have r1: "scan_for el n end t1 s = scan_for el n end (t2 + stepMs) s2" by simp
        have "scan_body el' n t2 s' = (False, s2')"
          unfolding s2'_def
          by (rule scan_body_up) (use g2 out e2p gb pT in simp_all)
        from scan_for_continue [OF t12(5) this]
        have r2: "scan_for el' n end t2 s' = scan_for el' n end (t2 + stepMs) s2'" .
        have "a < t2 \<or> end < t2 + stepMs \<or> above el (t2 + stepMs)"
        proof (cases "t2 < end")
          case True
          from next_up [OF True e2p e1n] show ?thesis by simp
        next
          case False
          then show ?thesis by (simp add: stepMs_def)
        qed
        then have "coupled start el end t2 s2 s2'"
          using e2 e2p ps abr even2 t12
          by (simp add: coupled_def s2_def s2'_def s1_def stepMs_def)
        from result [OF r1 r2 this] show ?thesis .
      qed
    next
      case e1p: True
      with iso1 False have e2p: "e2 > 0" by simp
      define a where "a = (case bisectCrossingTime el u t1 0 25 of None \<Rightarrow> t1 | Some d \<Rightarrow> d)"
      have abr: "u \<le> a" "a \<le> t1"
        using crossing_time_bracket [of u t1 el] t12 by (simp_all add: a_def)
      define s1 where "s1 = s\<lparr>inPass := True, currentAOS := Some a, prevT := t1, prevE := e1\<rparr>"
      have b1: "scan_body el n t1 s = (False, s1)"
        unfolding s1_def
        by (rule scan_body_up) (use e1 out e1p pT in \<open>simp_all add: a_def\<close>)
      have f1: "scan_for el n end t1 s = scan_for el n end t2 s1"
        using scan_for_continue [OF t12(4) b1] t12(1) by simp
      define s2 where "s2 = s1\<lparr>prevT := t2, prevE := e2\<rparr>"
      define s2' where "s2' = s'\<lparr>inPass := True, currentAOS := Some t2, prevT := t2, prevE := e2\<rparr>"
      have "scan_body el n t2 s1 = (False, s2)"
        unfolding s2_def by (rule scan_body_same) (use e2 e1p e2p in \<open>simp_all add: s1_def\<close>)
      from scan_for_continue [OF t12(5) this] f1
      have r1: "scan_for el n end t1 s = scan_for el n end (t2 + stepMs) s2" by simp
      have "scan_body el' n t2 s' = (False, s2')"
        unfolding s2'_def
        by (rule scan_body_up) (use g2 out e2p gb pT in simp_all)
      from scan_for_continue [OF t12(5) this]
      have r2: "scan_for el' n end t2 s' = scan_for el' n end (t2 + stepMs) s2'" .
      have "coupled start el end t2 s2 s2'"
        using e2 e2p ps abr even2 t12
        by (simp add: coupled_def s2_def s2'_def s1_def stepMs_def)
      from result [OF r1 r2 this] show ?thesis .
    qed
  next
    case True
    then have inn: "inPass s" "inPass s'" "prevE s' > 0" using iP pE by simp_all
    from cp True obtain a a' where
      ca: "currentAOS s = Some a" and ca': "currentAOS s' = Some a'"
      and aa: "a \<le> a'" "a' \<le> a + 2 * stepMs" "a' \<le> u" "(a' - start) mod (2 * stepMs) = 0"
      and strict: "a < u \<or> end < u + stepMs \<or> above el (u + stepMs)"
      by (auto simp: coupled_def)
    define p' where "p' = \<lparr>aos = a', los = t2, tca = peak_t (findMaxElevation el' a' t2),
           maxElev = elev (findMaxElevation el' a' t2)\<rparr>"
    have down': "scan_body el' n t2 s' =
      (if int (length (passes s')) + 1 \<ge> n
       then (True, s'\<lparr>inPass := False, passes := passes s' @ [p']\<rparr>)
       else (False, s'\<lparr>inPass := False, currentAOS := None, passes := passes s' @ [p'],
               prevT := t2, prevE := e2\<rparr>))" if "e2 \<le> 0"
      by (rule scan_body_down [where a = a' and d = t2])
         (use g2 inn that ca' gb pT aa t12 in \<open>simp_all add: p'_def\<close>)
    show ?thesis
    proof (cases "e1 > 0")
      case e1p: True
      define s1 where "s1 = s\<lparr>prevT := t1, prevE := e1\<rparr>"
      have b1: "scan_body el n t1 s = (False, s1)"
        unfolding s1_def by (rule scan_body_same) (use e1 iP True e1p in simp_all)
      have f1: "scan_for el n end t1 s = scan_for el n end t2 s1"
        using scan_for_continue [OF t12(4) b1] t12(1) by simp
      show ?thesis
      proof (cases "e2 > 0")
        case e2p: True
        define s2 where "s2 = s1\<lparr>prevT := t2, prevE := e2\<rparr>"
        define s2' where "s2' = s'\<lparr>prevT := t2, prevE := e2\<rparr>"
        have "scan_body el n t2 s1 = (False, s2)"
          unfolding s2_def
          by (rule scan_body_same) (use e2 inn e1p e2p in \<open>simp_all add: s1_def\<close>)
        from scan_for_continue [OF t12(5) this] f1
        have r1: "scan_for el n end t1 s = scan_for el n end (t2 + stepMs) s2" by simp
        have "scan_body el' n t2 s' = (False, s2')"
          unfolding s2'_def by (rule scan_body_same) (use g2 inn e2p in simp_all)
        from scan_for_continue [OF t12(5) this]
        have r2: "scan_for el' n end t2 s' = scan_for el' n end (t2 + stepMs) s2'" .
        have "coupled start el end t2 s2 s2'"
          using e2 e2p ps ca ca' aa t12 inn
          by (simp add: coupled_def s2_def s2'_def s1_def stepMs_def)
        from result [OF r1 r2 this] show ?thesis .
      next
        case e2n: False
        then have e2le: "e2 \<le> 0" by simp
        define d where "d = (case bisectCrossingTime el t1 t2 0 25 of None \<Rightarrow> t2 | Some d \<Rightarrow> d)"
        have dbr: "t1 \<le> d" "d \<le> t2"
          using crossing_time_bracket [of t1 t2 el] t12 by (simp_all add: d_def)
        define p where "p = \<lparr>aos = a, los = d, tca = peak_t (findMaxElevation el a d),
           maxElev = elev (findMaxElevation el a d)\<rparr>"
        have down: "scan_body el n t2 s1 =
          (if int (length (passes s1)) + 1 \<ge> n
           then (True, s1\<lparr>inPass := False, passes := passes s1 @ [p]\<rparr>)
           else (False, s1\<lparr>inPass := False, currentAOS := None, passes := passes s1 @ [p],
                   prevT := t2, prevE := e2\<rparr>))"
          by (rule scan_body_down [where a = a and d = d])
             (use e2 e2le inn e1p ca aa dbr t12 in \<open>simp_all add: s1_def d_def p_def\<close>)
        have rel: "list_all2 (same_crossings start) (passes s1 @ [p]) (passes s' @ [p'])"
          using ps aa dbr t12 even2
          by (intro same_crossings_snoc)
             (simp_all add: s1_def same_crossings_def p_def p'_def stepMs_def)
        show ?thesis
        proof (cases "int (length (passes s)) + 1 \<ge> n")
          case True
          have "scan_for el n end t2 s1 = s1\<lparr>inPass := False, passes := passes s1 @ [p]\<rparr>"
            by (rule scan_for_break [OF t12(5)]) (use down True in \<open>simp add: s1_def\<close>)
          moreover have "scan_for el' n end t2 s' = s'\<lparr>inPass := False, passes := passes s' @ [p']\<rparr>"
            by (rule scan_for_break [OF t12(5)]) (use down' [OF e2le] True len in simp)
          ultimately show ?thesis using rel f1 by (intro stop) simp
        next
          case False
          define s2 where "s2 = s1\<lparr>inPass := False, currentAOS := None,
            passes := passes s1 @ [p], prevT := t2, prevE := e2\<rparr>"
          define s2' where "s2' = s'\<lparr>inPass := False, currentAOS := None,
            passes := passes s' @ [p'], prevT := t2, prevE := e2\<rparr>"
          have "scan_body el n t2 s1 = (False, s2)"
            using down False by (simp add: s1_def s2_def)
          from scan_for_continue [OF t12(5) this] f1
          have r1: "scan_for el n end t1 s = scan_for el n end (t2 + stepMs) s2" by simp
          have "scan_body el' n t2 s' = (False, s2')"
            using down' [OF e2le] False len by (simp add: s2'_def)
          from scan_for_continue [OF t12(5) this]
          have r2: "scan_for el' n end t2 s' = scan_for el' n end (t2 + stepMs) s2'" .
          have "coupled start el end t2 s2 s2'"
            using e2 e2le rel by (simp add: coupled_def s2_def s2'_def)
          from result [OF r1 r2 this] show ?thesis .
        qed
      qed
    next
      case e1n: False
      then have e1le: "e1 \<le> 0" by simp
      from iso1 True e1n have e2n: "\<not> e2 > 0" by simp
      then have e2le: "e2 \<le> 0" by simp
      define d where "d = (case bisectCrossingTime el u t1 0 25 of None \<Rightarrow> t1 | Some d \<Rightarrow> d)"
      have dbr: "u \<le> d" "d \<le> t1"
        using crossing_time_bracket [of u t1 el] t12 by (simp_all add: d_def)
      have "a < u" using strict t12 ab e1n by (simp add: t1_def)
      then have ad: "a < d" using dbr by simp
      define p where "p = \<lparr>aos = a, los = d, tca = peak_t (findMaxElevation el a d),
           maxElev = elev (findMaxElevation el a d)\<rparr>"
      have down: "scan_body el n t1 s =
          (if int (length (passes s)) + 1 \<ge> n
           then (True, s\<lparr>inPass := False, passes := passes s @ [p]\<rparr>)
           else (False, s\<lparr>inPass := False, currentAOS := None, passes := passes s @ [p],
                   prevT := t1, prevE := e1\<rparr>))"
        by (rule scan_body_down [where a = a and d = d])
           (use e1 inn True e1le ca ad in \<open>simp_all add: d_def pT p_def\<close>)
      have rel: "list_all2 (same_crossings start) (passes s @ [p]) (passes s' @ [p'])"
        using ps aa dbr t12 even2
        by (intro same_crossings_snoc)
           (simp_all add: same_crossings_def p_def p'_def stepMs_def)
      show ?thesis
      proof (cases "int (length (passes s)) + 1 \<ge> n")
        case True
        have "scan_for el n end t1 s = s\<lparr>inPass := False, passes := passes s @ [p]\<rparr>"
          by (rule scan_for_break [OF t12(4)]) (use down True in simp)
        moreover have "scan_for el' n end t2 s' = s'\<lparr>inPass := False, passes := passes s' @ [p']\<rparr>"
          by (rule scan_for_break [OF t12(5)]) (use down' [OF e2le] True len in simp)
        ultimately show ?thesis using rel by (intro stop) simp
      next
        case False
        define s1 where "s1 = s\<lparr>inPass := False, currentAOS := None,
            passes := passes s @ [p], prevT := t1, prevE := e1\<rparr>"
        have "scan_body el n t1 s = (False, s1)" using down False by (simp add: s1_def)
        from scan_for_continue [OF t12(4) this] t12(1)
        have f1: "scan_for el n end t1 s = scan_for el n end t2 s1" by simp
        define s2 where "s2 = s1\<lparr>prevT := t2, prevE := e2\<rparr>"
        define s2' where "s2' = s'\<lparr>inPass := False, currentAOS := None,
            passes := passes s' @ [p'], prevT := t2, prevE := e2\<rparr>"
        have "scan_body el n t2 s1 = (False, s2)"
          unfolding s2_def
          by (rule scan_body_same) (use e2 e1n e2n in \<open>simp_all add: s1_def\<close>)
        from scan_for_continue [OF t12(5) this] f1
        have r1: "scan_for el n end t1 s = scan_for el n end (t2 + stepMs) s2" by simp
        have "scan_body el' n t2 s' = (False, s2')"
          using down' [OF e2le] False len by (simp add: s2'_def)
        from scan_for_continue [OF t12(5) this]
        have r2: "scan_for el' n end t2 s' = scan_for el' n end (t2 + stepMs) s2'" .
        have "coupled start el end t2 s2 s2'"
          using e2 e2le rel by (simp add: coupled_def s2_def s2'_def s1_def)
        from result [OF r1 r2 this] show ?thesis .
      qed
    qed
  qed
qed

lemma coupled_rest:
  assumes cp: "coupled g el end u s s'" and even: "(u - g) mod (2 * stepMs) = 0"
    and e: "el (u + stepMs) = Some e" and "end = u + stepMs"
    and last: "above el u \<longrightarrow> above el (u + stepMs)"
  shows "list_all2 (same_crossings g) (passes (scan_for el n end (u + stepMs) s))
      (passes (scan_for (gapped g el) n end (u + stepMs) s'))"
proof -
  have le: "u + stepMs \<le> end" and gt: "end < u + stepMs + stepMs"
    using assms(4) by (simp_all add: stepMs_def)
  from cp have eu: "el u = Some (prevE s)" and iP: "inPass s = (prevE s > 0)"
    and ps: "list_all2 (same_crossings g) (passes s) (passes s')"
    by (simp_all add: coupled_def)
  have "scan_for (gapped g el) n end (u + stepMs) s' = s'"
    using scan_for_continue [OF le scan_body_null [of "gapped g el" "u + stepMs", OF gapped_odd [OF even]]]
      scan_for_done [OF gt] by simp
  moreover have "\<exists>s1. scan_body el n (u + stepMs) s = (False, s1) \<and> passes s1 = passes s"
  proof (cases "prevE s > 0")
    case True
    with last eu e have "e > 0" by (simp add: above_Some)
    with True iP have "scan_body el n (u + stepMs) s = (False, s\<lparr>prevT := u + stepMs, prevE := e\<rparr>)"
      by (intro scan_body_same) (use e in simp_all)
    then show ?thesis by simp
  next
    case False
    show ?thesis
    proof (cases "e > 0")
      case True
      have "scan_body el n (u + stepMs) s = (False, s\<lparr>inPass := True,
          currentAOS := Some (case bisectCrossingTime el (prevT s) (u + stepMs) 0 25 of
             None \<Rightarrow> u + stepMs | Some d \<Rightarrow> d),
          prevT := u + stepMs, prevE := e\<rparr>)"
        by (rule scan_body_up) (use e True False iP in simp_all)
      then show ?thesis by simp
    next
      case e0: False
      with False iP have "scan_body el n (u + stepMs) s = (False, s\<lparr>prevT := u + stepMs, prevE := e\<rparr>)"
        by (intro scan_body_same) (use e in simp_all)
      then show ?thesis by simp
    qed
  qed
  then obtain s1 where "scan_body el n (u + stepMs) s = (False, s1)" and p1: "passes s1 = passes s"
    by blast
  from scan_for_continue [OF le this(1)] scan_for_done [OF gt]
  have "scan_for el n end (u + stepMs) s = s1" by simp
  ultimately show ?thesis using ps p1 by simp
qed

lemma coupled_run_rest:
  assumes valid: "\<forall>i. 0 \<le> i \<and> g + i * stepMs \<le> end \<longrightarrow> el (g + i * stepMs) \<noteq> None"
    and stretch: "\<forall>i. 0 < i \<and> g + i * stepMs < end \<longrightarrow>
      above el (g + i * stepMs) = above el (g + (i - 1) * stepMs) \<or>
      above el (g + i * stepMs) = above el (g + (i + 1) * stepMs)"
    and rest: "r = 0 \<or> r = stepMs \<and> (above el (end - stepMs) \<longrightarrow> above el end)"
  shows "end = g + (2 * j + 2 * int k) * stepMs + r \<Longrightarrow> 0 \<le> j \<Longrightarrow>
    coupled g el end (g + 2 * j * stepMs) s s' \<Longrightarrow>
    list_all2 (same_crossings g)
      (passes (scan_for el n end (g + 2 * j * stepMs + stepMs) s))
      (passes (scan_for (gapped g el) n end (g + 2 * j * stepMs + stepMs) s'))"
proof (induction k arbitrary: j s s')
  case 0
  from rest show ?case
  proof
    assume "r = 0"
    with "0.prems"(1) have "end < g + 2 * j * stepMs + stepMs" by (simp add: stepMs_def)
    then show ?case using "0.prems"(3) by (simp add: scan_for_done coupled_def)
  next
    assume r: "r = stepMs \<and> (above el (end - stepMs) \<longrightarrow> above el end)"
    define u where "u = g + 2 * j * stepMs"
    have e: "end = u + stepMs" using "0.prems"(1) r by (simp add: u_def)
    have even: "(u - g) mod (2 * stepMs) = 0" by (simp add: u_def stepMs_def)
    have "0 \<le> 2 * j + 1" "g + (2 * j + 1) * stepMs \<le> end"
      using "0.prems"(2) e by (simp_all add: u_def algebra_simps)
    with valid [rule_format, of "2 * j + 1"] have "el (g + (2 * j + 1) * stepMs) \<noteq> None" by blast
    moreover have "g + (2 * j + 1) * stepMs = u + stepMs" by (simp add: u_def algebra_simps)
    ultimately obtain e1 where e1: "el (u + stepMs) = Some e1" by auto
    have last: "above el u \<longrightarrow> above el (u + stepMs)" using r e by simp
    from coupled_rest [OF "0.prems"(3) [folded u_def] even e1 e last]
    show ?case by (simp add: u_def)
  qed
next
  case (Suc k)
  define u where "u = g + 2 * j * stepMs"
  have r0: "0 \<le> r" using rest by (auto simp: stepMs_def)
  have u1: "u + stepMs = g + (2 * j + 1) * stepMs"
    and u2: "u + 2 * stepMs = g + (2 * j + 2) * stepMs"
    and u3: "g + (2 * j + 2) * stepMs + stepMs = g + (2 * j + 3) * stepMs"
    and u0: "u = g + (2 * j) * stepMs"
    by (simp_all add: u_def algebra_simps)
  have inside: "u + 2 * stepMs \<le> end" using Suc.prems(1) r0 by (simp add: u_def stepMs_def)
  have even: "(u - g) mod (2 * stepMs) = 0" by (simp add: u_def stepMs_def)
  have i1: "0 \<le> 2 * j + 1" "g + (2 * j + 1) * stepMs \<le> end"
    and i2: "0 \<le> 2 * j + 2" "g + (2 * j + 2) * stepMs \<le> end"
    using inside Suc.prems(2) by (simp_all add: u_def stepMs_def)
  from valid [rule_format, of "2 * j + 1"] i1 have "el (g + (2 * j + 1) * stepMs) \<noteq> None"
    by blast
  then obtain e1 where e1: "el (u + stepMs) = Some e1" unfolding u1 by blast
  from valid [rule_format, of "2 * j + 2"] i2 have "el (g + (2 * j + 2) * stepMs) \<noteq> None"
    by blast
  then obtain e2 where e2: "el (u + 2 * stepMs) = Some e2" unfolding u2 by blast
  have j1: "0 < 2 * j + 1" "g + (2 * j + 1) * stepMs < end"
    "2 * j + 1 - 1 = 2 * j" "2 * j + 1 + 1 = 2 * j + 2"
    using inside Suc.prems(2) by (simp_all add: u_def stepMs_def)
  have iso1: "above el (u + stepMs) = above el u \<or>
      above el (u + stepMs) = above el (u + 2 * stepMs)"
    using stretch [rule_format, of "2 * j + 1"] j1(1,2)
    unfolding u1 u2 j1(3,4) u0 [symmetric] by blast
  have j2: "0 < 2 * j + 2" "2 * j + 2 - 1 = 2 * j + 1" "2 * j + 2 + 1 = 2 * j + 3"
    using Suc.prems(2) by simp_all
  have iso2: "u + 2 * stepMs < end \<longrightarrow>
      above el (u + 2 * stepMs) = above el (u + stepMs) \<or>
      above el (u + 2 * stepMs) = above el (u + 2 * stepMs + stepMs)"
    using stretch [rule_format, of "2 * j + 2"] j2(1)
    unfolding u1 u2 u3 j2(2,3) by blast
  from coupled_block [OF e1 e2 inside even Suc.prems(3) [folded u_def] iso1 iso2, of n]
  show ?case
  proof
    assume "\<exists>s2 s2'. scan_for el n end (u + stepMs) s = scan_for el n end (u + 2 * stepMs + stepMs) s2 \<and>
       scan_for (gapped g el) n end (u + stepMs) s' =
         scan_for (gapped g el) n end (u + 2 * stepMs + stepMs) s2' \<and>
       coupled g el end (u + 2 * stepMs) s2 s2'"
    then obtain s2 s2' where
      r1: "scan_for el n end (u + stepMs) s = scan_for el n end (u + 2 * stepMs + stepMs) s2"
      and r2: "scan_for (gapped g el) n end (u + stepMs) s' =
         scan_for (gapped g el) n end (u + 2 * stepMs + stepMs) s2'"
      and cp: "coupled g el end (u + 2 * stepMs) s2 s2'" by blast
    have nxt: "u + 2 * stepMs = g + 2 * (j + 1) * stepMs" by (simp add: u_def algebra_simps)
    have "end = g + (2 * (j + 1) + 2 * int k) * stepMs + r"
      using Suc.prems(1) by (simp add: algebra_simps)
    moreover have "0 \<le> j + 1" using Suc.prems(2) by simp
    ultimately have "list_all2 (same_crossings g)
      (passes (scan_for el n end (g + 2 * (j + 1) * stepMs + stepMs) s2))
      (passes (scan_for (gapped g el) n end (g + 2 * (j + 1) * stepMs + stepMs) s2'))"
      using cp [unfolded nxt] by (rule Suc.IH)
    then show ?thesis unfolding nxt [symmetric] u_def [symmetric] r1 r2 .
  next
    assume "list_all2 (same_crossings g) (passes (scan_for el n end (u + stepMs) s))
      (passes (scan_for (gapped g el) n end (u + stepMs) s'))"
    then show ?thesis by (simp add: u_def)
  qed
qed

lemma coupled_run:
  assumes valid: "\<forall>i. 0 \<le> i \<and> start + i * stepMs \<le> end \<longrightarrow> el (start + i * stepMs) \<noteq> None"
    and stretch: "\<forall>i. 0 < i \<and> start + i * stepMs < end \<longrightarrow>
      above el (start + i * stepMs) = above el (start + (i - 1) * stepMs) \<or>
      above el (start + i * stepMs) = above el (start + (i + 1) * stepMs)"
    and "end = start + (2 * j + 2 * int k) * stepMs" and "0 \<le> j"
    and "coupled start el end (start + 2 * j * stepMs) s s'"
  shows "list_all2 (same_crossings start)
      (passes (scan_for el n end (start + 2 * j * stepMs + stepMs) s))
      (passes (scan_for (gapped start el) n end (start + 2 * j * stepMs + stepMs) s'))"
proof -
  have "(0::int) = 0 \<or> (0::int) = stepMs \<and> (above el (end - stepMs) \<longrightarrow> above el end)"
    by simp
  moreover have "end = start + (2 * j + 2 * int k) * stepMs + 0" using assms(3) by simp
  ultimately show ?thesis using assms(4,5) by (rule coupled_run_rest [OF valid stretch])
qed

lemma coupled_init:
  assumes "el start = Some e0"
    and "above el start \<longrightarrow> above el (start + stepMs)"
  shows "coupled start el end start (scan_init el start) (scan_init (gapped start el) start)"
proof -
  have "gapped start el start = Some e0" using assms(1) by (simp add: gapped_def stepMs_def)
  with assms show ?thesis
    by (simp add: coupled_def scan_init_def Let_def above_Some stepMs_def)
qed

lemma gaps_run_related:
  assumes valid: "\<forall>i. 0 \<le> i \<and> i \<le> 180 * searchHours \<longrightarrow> el (start + i * stepMs) \<noteq> None"
    and first: "above el start \<longrightarrow> above el (start + stepMs)"
    and stretch: "\<forall>i. 0 < i \<and> i < 180 * searchHours \<longrightarrow>
      above el (start + i * stepMs) = above el (start + (i - 1) * stepMs) \<or>
      above el (start + i * stepMs) = above el (start + (i + 1) * stepMs)"
  shows "list_all2 (same_crossings start) (scan_passes el start nPasses searchHours)
      (scan_passes (gapped start el) start nPasses searchHours)"
proof (cases "0 \<le> searchHours")
  case False
  then have "start + searchHours * 3600 * 1000 < start + stepMs" by (simp add: stepMs_def)
  then show ?thesis by (simp add: scan_passes_def Let_def scan_for_done scan_init_def)
next
  case True
  define "end" where "end = start + searchHours * 3600 * 1000"
  define k where "k = nat (90 * searchHours)"
  have e: "end = start + (2 * 0 + 2 * int k) * stepMs"
    using True by (simp add: end_def k_def stepMs_def)
  have v: "\<forall>i. 0 \<le> i \<and> start + i * stepMs \<le> end \<longrightarrow> el (start + i * stepMs) \<noteq> None"
    using valid by (simp add: end_def stepMs_def)
  have s: "\<forall>i. 0 < i \<and> start + i * stepMs < end \<longrightarrow>
      above el (start + i * stepMs) = above el (start + (i - 1) * stepMs) \<or>
      above el (start + i * stepMs) = above el (start + (i + 1) * stepMs)"
    using stretch by (simp add: end_def stepMs_def)
  from valid [rule_format, of 0] True obtain e0 where e0: "el start = Some e0" by auto
  have "coupled start el end (start + 2 * 0 * stepMs) (scan_init el start)
      (scan_init (gapped start el) start)"
    using coupled_init [OF e0 first, of "end"] by simp
  from coupled_run [OF v s e _ this, of nPasses]
  have "list_all2 (same_crossings start)
      (passes (scan_for el nPasses end (start + stepMs) (scan_init el start)))
      (passes (scan_for (gapped start el) nPasses end (start + stepMs)
         (scan_init (gapped start el) start)))" by simp
  then show ?thesis unfolding scan_passes_def Let_def end_def [symmetric] .
qed

lemma gapped_before: "gapped (start + stepMs) el start = None"
  by (simp add: gapped_def stepMs_def)

lemma gapped_anchor: "gapped g el g = el g"
  by (simp add: gapped_def stepMs_def)

lemma bisect_gapped_start:
  "bisectCrossingTime (gapped (start + stepMs) el) start t 0 25 = None"
  by (simp add: bisectCrossingTime_def newDate_of_int gapped_before)

lemma coupled_first:
  assumes e0: "el start = Some e0" and e1: "el (start + stepMs) = Some e1"
    and inside: "start + stepMs \<le> end"
    and first: "above el start \<longrightarrow> above el (start + stepMs)"
    and iso: "start + stepMs < end \<longrightarrow>
      above el (start + stepMs) = above el start \<or>
      above el (start + stepMs) = above el (start + stepMs + stepMs)"
  shows "\<exists>s1 s1'.
    scan_for el n end (start + stepMs) (scan_init el start) =
      scan_for el n end (start + stepMs + stepMs) s1 \<and>
    scan_for (gapped (start + stepMs) el) n end (start + stepMs)
        (scan_init (gapped (start + stepMs) el) start) =
      scan_for (gapped (start + stepMs) el) n end (start + stepMs + stepMs) s1' \<and>
    coupled (start + stepMs) el end (start + stepMs) s1 s1'"
proof -
  define t1 where "t1 = start + stepMs"
  define el' where "el' = gapped t1 el"
  define s where "s = scan_init el start"
  define s' where "s' = scan_init el' start"
  have t1: "start < t1" "t1 = start + 20000" by (simp_all add: t1_def stepMs_def)
  note e1 = e1 [folded t1_def] and inside = inside [folded t1_def]
  have g0: "el' start = None" unfolding el'_def t1_def by (rule gapped_before)
  have g1: "el' t1 = Some e1" unfolding el'_def using gapped_anchor [of t1 el] e1 by simp
  have gb: "bisectCrossingTime el' start t1 0 25 = None"
    unfolding el'_def t1_def by (rule bisect_gapped_start)
  have s: "prevT s = start" "prevE s = e0" "inPass s = (e0 > 0)" "passes s = []"
    "currentAOS s = (if e0 > 0 then Some start else None)"
    using e0 by (simp_all add: s_def scan_init_def Let_def)
  have s': "prevT s' = start" "prevE s' = - 999" "\<not> inPass s'" "passes s' = []"
    using g0 by (simp_all add: s'_def scan_init_def Let_def)
  have ab: "above el start = (e0 > 0)" "above el t1 = (e1 > 0)"
    using e0 e1 by (simp_all add: above_Some)
  have result: ?thesis
    if "scan_body el n t1 s = (False, s1)" and "scan_body el' n t1 s' = (False, s1')"
      and "coupled t1 el end t1 s1 s1'" for s1 s1'
    using scan_for_continue [OF inside that(1)] scan_for_continue [OF inside that(2)] that(3)
    unfolding s_def s'_def el'_def t1_def by blast
  have up': "scan_body el' n t1 s' =
      (False, s'\<lparr>inPass := True, currentAOS := Some t1, prevT := t1, prevE := e1\<rparr>)" if "e1 > 0"
    by (rule scan_body_up) (use g1 s' that gb in simp_all)
  have later: "a < t1 \<or> end < t1 + stepMs \<or> above el (t1 + stepMs)"
    if "e1 > 0" and "\<not> e0 > 0" for a :: int
  proof (cases "t1 < end")
    case True
    with iso [folded t1_def] ab that show ?thesis by simp
  next
    case False
    then show ?thesis by (simp add: stepMs_def)
  qed
  show ?thesis
  proof (cases "e0 > 0")
    case True
    with first [folded t1_def] ab have e1p: "e1 > 0" by simp
    have "scan_body el n t1 s = (False, s\<lparr>prevT := t1, prevE := e1\<rparr>)"
      by (rule scan_body_same) (use e1 s True e1p in simp_all)
    moreover note up' [OF e1p]
    moreover have "coupled t1 el end t1 (s\<lparr>prevT := t1, prevE := e1\<rparr>)
        (s'\<lparr>inPass := True, currentAOS := Some t1, prevT := t1, prevE := e1\<rparr>)"
      using e1 e1p s s' True t1 by (simp add: coupled_def stepMs_def)
    ultimately show ?thesis by (rule result)
  next
    case False
    show ?thesis
    proof (cases "e1 > 0")
      case True
      define a where "a = (case bisectCrossingTime el start t1 0 25 of None \<Rightarrow> t1 | Some d \<Rightarrow> d)"
      have abr: "start \<le> a" "a \<le> t1"
        using crossing_time_bracket [of start t1 el] t1 by (simp_all add: a_def)
      have "scan_body el n t1 s =
          (False, s\<lparr>inPass := True, currentAOS := Some a, prevT := t1, prevE := e1\<rparr>)"
        by (rule scan_body_up) (use e1 s False True in \<open>simp_all add: a_def\<close>)
      moreover note up' [OF True]
      moreover have "coupled t1 el end t1
          (s\<lparr>inPass := True, currentAOS := Some a, prevT := t1, prevE := e1\<rparr>)
          (s'\<lparr>inPass := True, currentAOS := Some t1, prevT := t1, prevE := e1\<rparr>)"
        using e1 True s s' abr t1 later [OF True False, of a]
        by (simp add: coupled_def stepMs_def)
      ultimately show ?thesis by (rule result)
    next
      case e1n: False
      have "scan_body el n t1 s = (False, s\<lparr>prevT := t1, prevE := e1\<rparr>)"
        by (rule scan_body_same) (use e1 s False e1n in simp_all)
      moreover have "scan_body el' n t1 s' = (False, s'\<lparr>prevT := t1, prevE := e1\<rparr>)"
        by (rule scan_body_same) (use g1 s' e1n in simp_all)
      moreover have "coupled t1 el end t1 (s\<lparr>prevT := t1, prevE := e1\<rparr>)
          (s'\<lparr>prevT := t1, prevE := e1\<rparr>)"
        using e1 e1n s s' False by (simp add: coupled_def)
      ultimately show ?thesis by (rule result)
    qed
  qed
qed

lemma gaps_run_related_even:
  assumes valid: "\<forall>i. 0 \<le> i \<and> i \<le> 180 * searchHours \<longrightarrow> el (start + i * stepMs) \<noteq> None"
    and first: "above el start \<longrightarrow> above el (start + stepMs)"
    and stretch: "\<forall>i. 0 < i \<and> i < 180 * searchHours \<longrightarrow>
      above el (start + i * stepMs) = above el (start + (i - 1) * stepMs) \<or>
      above el (start + i * stepMs) = above el (start + (i + 1) * stepMs)"
    and last: "above el (start + (180 * searchHours - 1) * stepMs) \<longrightarrow>
      above el (start + 180 * searchHours * stepMs)"
  shows "list_all2 (same_crossings (start + stepMs)) (scan_passes el start nPasses searchHours)
      (scan_passes (gapped (start + stepMs) el) start nPasses searchHours)"
proof (cases "1 \<le> searchHours")
  case False
  then have "start + searchHours * 3600 * 1000 < start + stepMs" by (simp add: stepMs_def)
  then show ?thesis by (simp add: scan_passes_def Let_def scan_for_done scan_init_def)
next
  case True
  define "end" where "end = start + searchHours * 3600 * 1000"
  define g where "g = start + stepMs"
  define k where "k = nat (90 * searchHours - 1)"
  have idx: "start + (i + 1) * stepMs = g + i * stepMs" for i
    by (simp add: g_def algebra_simps)
  have bound: "g + i * stepMs \<le> end \<longleftrightarrow> i + 1 \<le> 180 * searchHours"
    "g + i * stepMs < end \<longleftrightarrow> i + 1 < 180 * searchHours" for i
    unfolding g_def end_def stepMs_def by linarith+
  have e: "end = g + (2 * 0 + 2 * int k) * stepMs + stepMs"
    using True by (simp add: end_def g_def k_def stepMs_def)
  have v: "\<forall>i. 0 \<le> i \<and> g + i * stepMs \<le> end \<longrightarrow> el (g + i * stepMs) \<noteq> None"
  proof (intro allI impI)
    fix i assume "0 \<le> i \<and> g + i * stepMs \<le> end"
    then have "0 \<le> i + 1 \<and> i + 1 \<le> 180 * searchHours" by (simp add: bound)
    with valid have "el (start + (i + 1) * stepMs) \<noteq> None" by blast
    then show "el (g + i * stepMs) \<noteq> None" unfolding idx .
  qed
  have s: "\<forall>i. 0 < i \<and> g + i * stepMs < end \<longrightarrow>
      above el (g + i * stepMs) = above el (g + (i - 1) * stepMs) \<or>
      above el (g + i * stepMs) = above el (g + (i + 1) * stepMs)"
  proof (intro allI impI)
    fix i assume "0 < i \<and> g + i * stepMs < end"
    then have "0 < i + 1 \<and> i + 1 < 180 * searchHours" by (simp add: bound)
    with stretch have "above el (start + (i + 1) * stepMs) = above el (start + (i + 1 - 1) * stepMs) \<or>
      above el (start + (i + 1) * stepMs) = above el (start + (i + 1 + 1) * stepMs)" by blast
    moreover have "start + (i + 1 - 1) * stepMs = g + (i - 1) * stepMs"
      "start + (i + 1 + 1) * stepMs = g + (i + 1) * stepMs"
      "start + (i + 1) * stepMs = g + i * stepMs"
      by (simp_all add: g_def algebra_simps)
    ultimately show "above el (g + i * stepMs) = above el (g + (i - 1) * stepMs) \<or>
      above el (g + i * stepMs) = above el (g + (i + 1) * stepMs)"
      by metis
  qed
  have ends: "start + (180 * searchHours - 1) * stepMs = end - stepMs"
    "start + 180 * searchHours * stepMs = end"
    by (simp_all add: end_def stepMs_def)
  have "above el (end - stepMs) \<longrightarrow> above el end" using last unfolding ends .
  then have r: "stepMs = 0 \<or> stepMs = stepMs \<and> (above el (end - stepMs) \<longrightarrow> above el end)"
    by blast
  from valid [rule_format, of 0] True obtain e0 where e0: "el start = Some e0" by auto
  from valid [rule_format, of 1] True obtain e1 where e1: "el (start + stepMs) = Some e1" by auto
  have inside: "start + stepMs \<le> end" using True by (simp add: end_def stepMs_def)
  have iso: "start + stepMs < end \<longrightarrow>
      above el (start + stepMs) = above el start \<or>
      above el (start + stepMs) = above el (start + stepMs + stepMs)"
    using stretch [rule_format, of 1] True by (simp add: end_def stepMs_def add.commute)
  from coupled_first [OF e0 e1 inside first iso, of nPasses] obtain s1 s1' where
    r1: "scan_for el nPasses end (start + stepMs) (scan_init el start) =
      scan_for el nPasses end (g + stepMs) s1"
    and r2: "scan_for (gapped g el) nPasses end (start + stepMs) (scan_init (gapped g el) start) =
      scan_for (gapped g el) nPasses end (g + stepMs) s1'"
    and cp: "coupled g el end g s1 s1'"
    unfolding g_def by blast
  have "coupled g el end (g + 2 * 0 * stepMs) s1 s1'" using cp by simp
  from coupled_run_rest [OF v s r e _ this, of nPasses]
  have "list_all2 (same_crossings g) (passes (scan_for el nPasses end (g + stepMs) s1))
      (passes (scan_for (gapped g el) nPasses end (g + stepMs) s1'))" by simp
  then have "list_all2 (same_crossings g)
      (passes (scan_for el nPasses end (start + stepMs) (scan_init el start)))
      (passes (scan_for (gapped g el) nPasses end (start + stepMs)
         (scan_init (gapped g el) start)))"
    by (simp only: r1 r2)
  then show ?thesis unfolding scan_passes_def Let_def end_def [symmetric] g_def .
qed

lemma gapped_skipped:
  "scan_body (gapped start el) n (start + (2 * i + 1) * stepMs) s = (False, s)"
proof -
  have "(start + 2 * i * stepMs - start) mod (2 * stepMs) = 0" by simp
  from gapped_odd [OF this, of el]
  have "gapped start el (start + (2 * i + 1) * stepMs) = None" by (simp add: algebra_simps)
  then show ?thesis by (rule scan_body_null)
qed


subsection \<open>Runs on the sample elevation functions\<close>

text \<open>
  The simplifier evaluates the model on numerals; it needs the floor of a quotient of
  numerals, for the date of a midpoint.
\<close>

lemma floor_rat_numeral: "\<lfloor>numeral a / numeral b :: rat\<rfloor> = numeral a div numeral b"
  by (metis floor_divide_of_int_eq of_int_numeral)

lemmas bisect_eval = bisectCrossingTime_def bisect_calls_def newDate_def eval_nat_numeral Let_def
  floor_rat_numeral

lemmas scan_eval = computeNextPasses_def scan_passes_def scan_init_def scan_for.simps
  scan_body_def crossing_up_def crossing_down_def stepMs_def Let_def
  findMaxElevation_def findMax_for.simps

lemma scan_init_passes [simp]: "passes (scan_init el start) = []"
  by (simp add: scan_init_def Let_def)

lemma ramp_bisect: "bisectCrossingTime ramp 20000 40000 0 25 = Some 29999"
  by (simp add: bisect_eval ramp_def)

lemma ramp_bounds:
  "bisect_at ramp 0 25 (of_int 20000, of_int 40000, - 10000, 10000) =
     Some (31457279375 / 1048576, 30000, - 1, 0)"
  by (simp add: bisect_eval ramp_def)

lemma spike_aos: "bisectCrossingTime spike 0 20000 0 25 = Some 19999"
  by (simp add: bisect_eval spike_def)

lemma spike_los: "bisectCrossingTime spike 20000 40000 0 25 = Some 20000"
  by (simp add: bisect_eval spike_def)

lemma hump_aos: "bisectCrossingTime hump 20000 40000 0 25 = Some 29999"
  by (simp add: bisect_eval hump_def)

lemma hump_los: "bisectCrossingTime hump 80000 100000 0 25 = Some 89999"
  by (simp add: bisect_eval hump_def)

lemma hump_run:
  "computeNextPasses hump 0 5 1 =
     PassesListed [\<lparr>aos = 29999, los = 89999, tca = 59999, maxElev = 899999999 / 100000000\<rparr>]"
  by (simp add: scan_eval hump_aos hump_los hump_def)

lemma hump_gaps_aos: "bisectCrossingTime hump_gaps 0 40000 0 25 = None"
  by (simp add: bisect_eval hump_gaps_def hump_def)

lemma hump_gaps_los: "bisectCrossingTime hump_gaps 80000 120000 0 25 = None"
  by (simp add: bisect_eval hump_gaps_def hump_def)

lemma hump_gaps_run:
  "computeNextPasses hump_gaps 0 5 1 =
     PassesListed [\<lparr>aos = 40000, los = 120000, tca = 55000, maxElev = 35 / 4\<rparr>]"
  by (simp add: scan_eval hump_gaps_aos hump_gaps_los hump_gaps_def hump_def)

lemma gappy_aos: "bisectCrossingTime gappy 0 20000 0 25 = None"
  by (simp add: bisect_eval gappy_def)

lemma gappy_los: "bisectCrossingTime gappy 20000 40000 0 25 = None"
  by (simp add: bisect_eval gappy_def)

lemma gappy_run:
  "computeNextPasses gappy 0 1 1 =
     PassesListed [\<lparr>aos = 20000, los = 40000, tca = 20000, maxElev = 1\<rparr>]"
  by (simp add: scan_eval gappy_aos gappy_los gappy_def)

lemma three_passes_bisect:
  "bisectCrossingTime three_passes 80000 100000 0 25 = Some 99999"
  "bisectCrossingTime three_passes 180000 200000 0 25 = Some 199999"
  "bisectCrossingTime three_passes 280000 300000 0 25 = Some 299999"
  "bisectCrossingTime three_passes 380000 400000 0 25 = Some 399999"
  "bisectCrossingTime three_passes 480000 500000 0 25 = Some 499999"
  "bisectCrossingTime three_passes 580000 600000 0 25 = Some 599999"
  by (simp_all add: bisect_eval three_passes_def)

lemma three_passes_run3:
  "computeNextPasses three_passes 0 3 1 = PassesListed
    [\<lparr>aos = 99999, los = 199999, tca = 104999, maxElev = 1\<rparr>,
     \<lparr>aos = 299999, los = 399999, tca = 304999, maxElev = 1\<rparr>,
     \<lparr>aos = 499999, los = 599999, tca = 504999, maxElev = 1\<rparr>]"
  by (simp add: scan_eval three_passes_bisect three_passes_def)

lemma overhead_peak: "findMaxElevation overhead 0 10000 = \<lparr>peak_t = 0, elev = 10\<rparr>"
  by (simp add: findMaxElevation_def findMax_for.simps overhead_def)


text \<open>
  For present-day time values the rounding has a fixed spacing: \<open>1 / 2048\<close> for the sum
  \<^verbatim>\<open>a + b\<close> and \<open>1 / 4096\<close> for its half.
\<close>

lemmas bisect64_eval = bisectCrossingTime64_def mid64_def newDate_def eval_nat_numeral Let_def
  floor_rat_numeral fl64_sum_now fl64_half_now round_even_def

lemma late_ramp_bounds:
  "bisect64_at late_ramp 0 25 (1800000000000, 1800000020000, - 10000, 10000) =
     Some (3686400020479999 / 2048, 1800000010000, - 1, 0)"
  by (simp add: bisect64_eval late_ramp_def)

lemma late_ramp_bisect:
  "bisectCrossingTime64 late_ramp 1800000000000 1800000020000 0 25 = Some 1800000009999"
  by (simp add: bisect64_eval late_ramp_def)

lemma late_ramp_sign:
  "\<forall>t. 1800000000000 \<le> t \<and> t \<le> 1800000020000 \<longrightarrow>
      (\<exists>e. late_ramp t = Some e \<and> sgn (real_of_rat e) = 1 * sgn (of_int t - 1800000010000))"
  by (simp add: late_ramp_def of_rat_diff)

lemma above_hump: "above hump t \<longleftrightarrow> 30000 < t \<and> t < 90000"
proof -
  have "above hump t \<longleftrightarrow> 0 < (t - 30000) * (90000 - t)"
    by (simp add: above_def hump_def zero_less_divide_iff del: of_int_mult of_int_diff)
  also have "\<dots> \<longleftrightarrow> 30000 < t \<and> t < 90000"
    by (auto simp: zero_less_mult_iff)
  finally show ?thesis .
qed

lemma hump_stretch:
  "\<forall>i. 0 < i \<and> i < 180 * 1 \<longrightarrow>
      above hump (0 + i * stepMs) = above hump (0 + (i - 1) * stepMs) \<or>
      above hump (0 + i * stepMs) = above hump (0 + (i + 1) * stepMs)"
  by (auto simp: above_hump stepMs_def)

lemma gapped_hump: "gapped 0 hump = hump_gaps"
proof
  fix t :: int
  have "(t - 20000) mod 40000 = (t mod 40000 - 20000) mod 40000"
    by (simp only: mod_diff_left_eq)
  moreover have "t mod 40000 = ((t - 20000) mod 40000 + 20000) mod 40000"
    by (simp only: mod_add_left_eq) simp
  ultimately have "(t - 20000) mod 40000 = 0 \<longleftrightarrow> t mod 40000 = 20000" by auto
  then show "gapped 0 hump t = hump_gaps t" by (simp add: gapped_def hump_gaps_def stepMs_def)
qed

lemma hump_passes:
  "scan_passes hump 0 5 1 =
     [\<lparr>aos = 29999, los = 89999, tca = 59999, maxElev = 899999999 / 100000000\<rparr>]"
  using hump_run by (simp add: computeNextPasses_def Let_def split: if_splits)

lemma hump_gaps_passes:
  "scan_passes hump_gaps 0 5 1 = [\<lparr>aos = 40000, los = 120000, tca = 55000, maxElev = 35 / 4\<rparr>]"
  using hump_gaps_run by (simp add: computeNextPasses_def Let_def split: if_splits)


section \<open>The claims\<close>

subsection \<open>The bisection\<close>

text \<open>
  Claim C10. For timestamps \<open>t0 < t1\<close> and every elevation function, a timestamp returned
  by \<^verbatim>\<open>bisectCrossingTime(t0, t1, ...)\<close> lies in \<open>[t0, t1]\<close>, and after any number of
  turns of the loop the working bounds satisfy \<open>t0 \<le> a \<le> b \<le> t1\<close>.
\<close>

theorem bisect_stays_in_bracket:
  assumes "t0 < t1"
  shows "(\<forall>t. bisectCrossingTime el t0 t1 targetElevDeg iters = Some t \<longrightarrow> t0 \<le> t \<and> t \<le> t1) \<and>
    (\<forall>n ea0 eb0 a b ea eb.
       bisect_at el targetElevDeg n (of_int t0, of_int t1, ea0, eb0) = Some (a, b, ea, eb) \<longrightarrow>
       of_int t0 \<le> a \<and> a \<le> b \<and> b \<le> of_int t1)"
proof -
  have "t0 \<le> t \<and> t \<le> t1"
    if "bisectCrossingTime el t0 t1 targetElevDeg iters = Some t" for t
    using bisectCrossingTime_bracket [OF that] assms by simp
  moreover have "of_int t0 \<le> a \<and> a \<le> b \<and> b \<le> of_int t1"
    if "bisect_at el targetElevDeg n (of_int t0, of_int t1, ea0, eb0) = Some (a, b, ea, eb)"
    for n ea0 eb0 a b ea eb
    using bisect_at_bracket [OF that, of "of_int t0" "of_int t1"] assms by simp
  ultimately show ?thesis by blast
qed

theorem bisect_stays_in_bracket_witness:
  "(20000::int) < 40000 \<and> bisectCrossingTime ramp 20000 40000 0 25 = Some 29999 \<and>
   (20000::int) \<le> 29999 \<and> (29999::int) \<le> 40000 \<and>
   bisect_at ramp 0 25 (of_int 20000, of_int 40000, - 10000, 10000) =
     Some (31457279375 / 1048576, 30000, - 1, 0) \<and>
   (of_int 20000 :: rat) \<le> 31457279375 / 1048576 \<and> (31457279375 / 1048576 :: rat) \<le> 30000 \<and>
   (30000::rat) \<le> of_int 40000"
proof -
  have h: "(20000::int) < 40000" by simp
  from bisect_stays_in_bracket [OF h, of ramp 0 25] ramp_bisect ramp_bounds
  show ?thesis by simp
qed

text \<open>
  Claim C6. \<^verbatim>\<open>bisectCrossingTime\<close> returns \<^verbatim>\<open>null\<close> exactly when \<^verbatim>\<open>elevationDeg\<close> is
  \<^verbatim>\<open>null\<close> at one of the dates it is called at: the two endpoints and the midpoints the
  loop reaches. When it fails, the scan goes on with the time of the coarse sample: as the
  AOS in the crossing-up block, and as the LOS of the pass pushed by the crossing-down block.
\<close>

theorem bisect_null_fallback:
  "(bisectCrossingTime el t0 t1 targetElevDeg iters = None \<longleftrightarrow>
      (\<exists>d \<in> set (bisect_calls el t0 t1 targetElevDeg iters). el d = None)) \<and>
   (bisectCrossingTime el (prevT s) t 0 25 = None \<longrightarrow>
      (\<not> inPass s \<and> prevE s \<le> 0 \<and> e > 0 \<longrightarrow>
         inPass (crossing_up el t e s) \<and> currentAOS (crossing_up el t e s) = Some t) \<and>
      (\<forall>a. inPass s \<and> prevE s > 0 \<and> e \<le> 0 \<and> currentAOS s = Some a \<and> a < t \<longrightarrow>
         (\<exists>p. passes (snd (crossing_down el nPasses t e s)) = passes s @ [p] \<and>
              aos p = a \<and> los p = t)))"
proof -
  have "bisectCrossingTime el t0 t1 targetElevDeg iters = None \<longleftrightarrow>
      (\<exists>d \<in> set (bisect_calls el t0 t1 targetElevDeg iters). el d = None)"
    by (rule bisectCrossingTime_None)
  moreover have "inPass (crossing_up el t e s) \<and> currentAOS (crossing_up el t e s) = Some t"
    if "bisectCrossingTime el (prevT s) t 0 25 = None" "\<not> inPass s \<and> prevE s \<le> 0 \<and> e > 0"
    using that by (simp add: crossing_up_def)
  moreover have "\<exists>p. passes (snd (crossing_down el nPasses t e s)) = passes s @ [p] \<and>
              aos p = a \<and> los p = t"
    if "bisectCrossingTime el (prevT s) t 0 25 = None"
      "inPass s \<and> prevE s > 0 \<and> e \<le> 0 \<and> currentAOS s = Some a \<and> a < t" for a
    using that by (simp add: crossing_down_def Let_def)
  ultimately show ?thesis by blast
qed

theorem bisect_null_fallback_witness:
  "bisectCrossingTime gappy 20000 40000 0 25 = None \<and>
   (\<exists>d \<in> set (bisect_calls gappy 20000 40000 0 25). gappy d = None) \<and>
   bisectCrossingTime gappy 0 20000 0 25 = None \<and>
   currentAOS (crossing_up gappy 20000 1 (scan_init gappy 0)) = Some 20000 \<and>
   (\<exists>p. passes (snd (crossing_down gappy 1 40000 (- 1)
      \<lparr>prevT = 20000, prevE = 1, inPass = True, currentAOS = Some 20000, passes = []\<rparr>)) = [] @ [p] \<and>
      aos p = 20000 \<and> los p = 40000)"
proof -
  let ?s = "\<lparr>prevT = 20000, prevE = 1, inPass = True, currentAOS = Some 20000, passes = []\<rparr>"
  have i: "scan_init gappy 0 = \<lparr>prevT = 0, prevE = - 999, inPass = False, currentAOS = None, passes = []\<rparr>"
    by (simp add: scan_init_def gappy_def)
  from bisect_null_fallback [of gappy 20000 40000 0 25 "scan_init gappy 0" 20000 1 5] gappy_los gappy_aos i
  have "(\<exists>d \<in> set (bisect_calls gappy 20000 40000 0 25). gappy d = None) \<and>
    currentAOS (crossing_up gappy 20000 1 (scan_init gappy 0)) = Some 20000" by simp
  moreover from bisect_null_fallback [of gappy 20000 40000 0 25 ?s 40000 "- 1" 1] gappy_los
  have "\<exists>p. passes (snd (crossing_down gappy 1 40000 (- 1) ?s)) = [] @ [p] \<and>
      aos p = 20000 \<and> los p = 40000" by simp
  ultimately show ?thesis using gappy_los gappy_aos by blast
qed

text \<open>
  Claim C3 says that the final bracket has the width \<open>(t1 - t0) / 2 ^ 25\<close>. In binary64
  it has not: for the ramp that crosses the horizon at 1 800 000 010 000, between the coarse
  samples at 1 800 000 000 000 and 1 800 000 020 000, the bounds after the 25 turns are
  \<open>1800000010000 - 1 / 2048\<close> and \<open>1800000010000\<close>, and \<open>(t1 - t0) / 2 ^ 25\<close> is
  \<open>625 / 1048576\<close>. At this time the sums \<^verbatim>\<open>a + b\<close> are rounded to multiples of
  \<open>1 / 2048\<close> and the midpoints are multiples of \<open>1 / 4096\<close>, which the exact midpoints
  of a bracket of 20 s are for the first 17 turns only.
\<close>

theorem bisect_width_counterexample:
  "(\<forall>t. late_ramp t = Some (of_int t - 1800000010000)) \<and>
   bisect64_at late_ramp 0 25 (of_int 1800000000000, of_int 1800000020000, - 10000, 10000) =
     Some (3686400020479999 / 2048, 1800000010000, - 1, 0) \<and>
   (1800000010000 :: rat) - 3686400020479999 / 2048 = 1 / 2048 \<and>
   (of_int (1800000020000 - 1800000000000) :: rat) / 2 ^ 25 = 625 / 1048576 \<and>
   (1800000010000 :: rat) - 3686400020479999 / 2048 \<noteq>
     of_int (1800000020000 - 1800000000000) / 2 ^ 25"
  using late_ramp_bounds by (simp add: late_ramp_def)

text \<open>
  Claim C3, amended. Let the elevation cross the horizon once in \<open>[t0, t1]\<close>, at the real
  time \<open>c\<close>: at every millisecond of the bracket it has an answer whose sign is that of
  \<open>t - c\<close> for a rising satellite (\<open>\<sigma> = 1\<close>) and the opposite for a setting one
  (\<open>\<sigma> = - 1\<close>). For time values that a \<^verbatim>\<open>Date\<close> can hold (at most 8 640 000 000 000 000
  in absolute value) and a bracket of at most a day, \<^verbatim>\<open>bisectCrossingTime\<close> with 25
  iterations, computed in binary64, returns a time within one second of \<open>c\<close>; and when the
  loop runs its 25 turns (\<open>t0\<close> is not the crossing itself) the final bracket is at most
  \<open>(t1 - t0) / 2 ^ 25 + 2\<close> milliseconds wide.
\<close>

theorem bisect64_within_one_second:
  fixes c :: real
  assumes "\<sigma> = 1 \<or> \<sigma> = - 1"
    and "of_int t0 \<le> c" and "c \<le> of_int t1"
    and "t1 - t0 \<le> 24 * 3600 * 1000"
    and "\<bar>t0\<bar> \<le> 8640000000000000" and "\<bar>t1\<bar> \<le> 8640000000000000"
    and "\<forall>t. t0 \<le> t \<and> t \<le> t1 \<longrightarrow>
      (\<exists>e. el t = Some e \<and> sgn (of_rat e) = \<sigma> * sgn (of_int t - c))"
  shows "(\<exists>r. bisectCrossingTime64 el t0 t1 0 25 = Some r \<and> \<bar>of_int r - c\<bar> < 1000) \<and>
    (\<forall>ea0 eb0. el t0 = Some ea0 \<and> el t1 = Some eb0 \<and> of_int t0 < c \<longrightarrow>
       (\<exists>a b ea eb. bisect64_at el 0 25 (of_int t0, of_int t1, ea0, eb0) = Some (a, b, ea, eb) \<and>
          0 \<le> b - a \<and> b - a \<le> of_int (t1 - t0) / 2 ^ 25 + 2))"
  using assms by (rule bisect64_accuracy)

theorem bisect64_within_one_second_witness:
  "bisectCrossingTime64 late_ramp 1800000000000 1800000020000 0 25 = Some 1800000009999 \<and>
   \<bar>real_of_int 1800000009999 - 1800000010000\<bar> < 1000 \<and>
   (\<exists>a b ea eb. bisect64_at late_ramp 0 25
        (of_int 1800000000000, of_int 1800000020000, - 10000, 10000) = Some (a, b, ea, eb) \<and>
      0 \<le> b - a \<and> b - a \<le> of_int (1800000020000 - 1800000000000) / 2 ^ 25 + 2)"
proof -
  have h1: "(1::real) = 1 \<or> (1::real) = - 1" by simp
  have h2: "real_of_int 1800000000000 \<le> 1800000010000" by simp
  have h3: "(1800000010000::real) \<le> of_int 1800000020000" by simp
  have h4: "(1800000020000::int) - 1800000000000 \<le> 24 * 3600 * 1000" by simp
  have h5: "\<bar>1800000000000 :: int\<bar> \<le> 8640000000000000" by simp
  have h6: "\<bar>1800000020000 :: int\<bar> \<le> 8640000000000000" by simp
  have e: "late_ramp 1800000000000 = Some (- 10000) \<and> late_ramp 1800000020000 = Some 10000 \<and>
      real_of_int 1800000000000 < 1800000010000"
    by (simp add: late_ramp_def)
  note run = bisect64_within_one_second [OF h1 h2 h3 h4 h5 h6 late_ramp_sign]
  from run e
  have "\<exists>a b ea eb. bisect64_at late_ramp 0 25
        (of_int 1800000000000, of_int 1800000020000, - 10000, 10000) = Some (a, b, ea, eb) \<and>
      0 \<le> b - a \<and> b - a \<le> of_int (1800000020000 - 1800000000000) / 2 ^ 25 + 2" by blast
  moreover from run late_ramp_bisect have "\<bar>real_of_int 1800000009999 - 1800000010000\<bar> < 1000"
    by auto
  ultimately show ?thesis using late_ramp_bisect by blast
qed


subsection \<open>The peak finder\<close>

text \<open>
  Claim C8. \<^verbatim>\<open>findMaxElevation\<close> looks at the elevation every five seconds from the AOS up
  to the LOS. With elevations in degrees (above the initial \<open>- 999\<close>), when one of these
  samples has an answer it returns the time and the value of the greatest of them, the
  earliest one among equals; when none has, it returns the AOS with \<open>- 999\<close>.
\<close>

theorem findMaxElevation_peak:
  assumes "\<forall>ms \<in> fine_grid start end. \<forall>e. el ms = Some e \<longrightarrow> - 999 < e"
  shows "((\<exists>ms \<in> fine_grid start end. el ms \<noteq> None) \<longrightarrow>
      peak_t (findMaxElevation el start end) \<in> fine_grid start end \<and>
      el (peak_t (findMaxElevation el start end)) = Some (elev (findMaxElevation el start end)) \<and>
      (\<forall>ms \<in> fine_grid start end. \<forall>e. el ms = Some e \<longrightarrow>
         e \<le> elev (findMaxElevation el start end) \<and>
         (e = elev (findMaxElevation el start end) \<longrightarrow>
            peak_t (findMaxElevation el start end) \<le> ms))) \<and>
    ((\<forall>ms \<in> fine_grid start end. el ms = None) \<longrightarrow>
      findMaxElevation el start end = \<lparr>peak_t = start, elev = - 999\<rparr>)"
proof -
  have "findMaxElevation el start end = \<lparr>peak_t = start, elev = - 999\<rparr>"
    if "\<forall>ms \<in> fine_grid start end. el ms = None"
    using findMaxElevation_is_peak [OF assms] that by (auto simp: is_peak_def)
  with findMaxElevation_first_max [OF _ assms] show ?thesis by blast
qed

theorem findMaxElevation_peak_witness:
  "findMaxElevation overhead 0 10000 = \<lparr>peak_t = 0, elev = 10\<rparr> \<and>
   0 \<in> fine_grid 0 10000 \<and> overhead 0 = Some 10 \<and>
   5000 \<in> fine_grid 0 10000 \<and> overhead 5000 = Some 10 \<and> (0::int) \<le> 5000 \<and>
   findMaxElevation gappy 0 10000 = \<lparr>peak_t = 0, elev = - 999\<rparr>"
proof -
  have g: "0 \<in> fine_grid 0 10000" "5000 \<in> fine_grid 0 10000" by (simp_all add: fine_grid_def)
  have o: "overhead 0 = Some 10" "overhead 5000 = Some 10" by (simp_all add: overhead_def)
  have h1: "\<forall>ms \<in> fine_grid 0 10000. \<forall>e. overhead ms = Some e \<longrightarrow> - 999 < e"
    by (simp add: overhead_def)
  have h2: "\<forall>ms \<in> fine_grid 0 10000. \<forall>e. gappy ms = Some e \<longrightarrow> - 999 < e"
    by (simp add: gappy_def)
  have h3: "\<forall>ms \<in> fine_grid 0 10000. gappy ms = None"
    by (simp add: fine_grid_def gappy_def)
  from findMaxElevation_peak [OF h2] h3
  have "findMaxElevation gappy 0 10000 = \<lparr>peak_t = 0, elev = - 999\<rparr>" by blast
  moreover from findMaxElevation_peak [OF h1] g o
  have "peak_t (findMaxElevation overhead 0 10000) \<in> fine_grid 0 10000" by blast
  ultimately show ?thesis using g o overhead_peak by simp
qed


subsection \<open>The pass search\<close>

text \<open>
  Claim C5. When the elevation is at most zero at every instant of the search window,
  the search ends with the status of no pass found.
\<close>

theorem always_below_no_passes:
  assumes "\<forall>t. start \<le> t \<and> t \<le> start + searchHours * 3600 * 1000 \<longrightarrow>
      (\<exists>e. el t = Some e \<and> e \<le> 0)"
  shows "computeNextPasses el start nPasses searchHours = NoPassesFound searchHours"
proof -
  let ?end = "start + searchHours * 3600 * 1000"
  have "passes (scan_for el nPasses ?end (start + stepMs) (scan_init el start)) = []"
  proof (cases "start + stepMs \<le> ?end")
    case True
    then have "start \<le> start \<and> start \<le> ?end" by (simp add: stepMs_def)
    with assms obtain e where "el start = Some e" "e \<le> 0" by blast
    then have out: "\<not> inPass (scan_init el start)" by (simp add: scan_init_def)
    from assms have "\<forall>t. start \<le> t \<and> t \<le> ?end \<longrightarrow> (\<forall>e. el t = Some e \<longrightarrow> e \<le> 0)"
      by fastforce
    then have "\<forall>t. start + stepMs \<le> t \<and> t \<le> ?end \<longrightarrow> (\<forall>e. el t = Some e \<longrightarrow> e \<le> 0)"
      by (rule window_narrow) (simp add: stepMs_def)
    from scan_for_below [OF this out] show ?thesis by simp
  next
    case False
    then show ?thesis by (subst scan_for.simps) simp
  qed
  then show ?thesis by (simp add: computeNextPasses_def scan_passes_def)
qed

theorem always_below_no_passes_witness:
  "computeNextPasses below 0 3 1 = NoPassesFound 1"
proof -
  have h: "\<forall>t. 0 \<le> t \<and> t \<le> 0 + 1 * 3600 * 1000 \<longrightarrow> (\<exists>e. below t = Some e \<and> e \<le> 0)"
    by (simp add: below_def)
  from always_below_no_passes [OF h, of 3] show ?thesis by simp
qed

text \<open>
  Claim C2 says that an elevation above zero at every instant of the window gives exactly
  one pass, from the start of the window to its end. The scan pushes a pass only at a
  crossing down, and nothing closes a pass that is still open when the loop ends: the
  satellite that is always up gives no pass.
\<close>

theorem always_above_counterexample:
  "computeNextPasses overhead 0 3 1 = NoPassesFound 1"
  by (simp add: scan_eval overhead_def)

text \<open>
  Claim C2, amended. When the elevation is above zero at every instant of the search
  window, the search ends with the status of no pass found.
\<close>

theorem always_above_no_passes:
  assumes "\<forall>t. start \<le> t \<and> t \<le> start + searchHours * 3600 * 1000 \<longrightarrow>
      (\<exists>e. el t = Some e \<and> e > 0)"
  shows "computeNextPasses el start nPasses searchHours = NoPassesFound searchHours"
proof -
  let ?end = "start + searchHours * 3600 * 1000"
  from assms have "\<forall>t. start \<le> t \<and> t \<le> ?end \<longrightarrow> (\<forall>e. el t = Some e \<longrightarrow> e > 0)"
    by fastforce
  then have "\<forall>t. start + stepMs \<le> t \<and> t \<le> ?end \<longrightarrow> (\<forall>e. el t = Some e \<longrightarrow> e > 0)"
    by (rule window_narrow) (simp add: stepMs_def)
  from scan_for_positive [OF this]
  show ?thesis by (simp add: computeNextPasses_def scan_passes_def)
qed

theorem always_above_no_passes_witness:
  "computeNextPasses overhead 0 1 2 = NoPassesFound 2"
proof -
  have h: "\<forall>t. 0 \<le> t \<and> t \<le> 0 + 2 * 3600 * 1000 \<longrightarrow> (\<exists>e. overhead t = Some e \<and> e > 0)"
    by (simp add: overhead_def)
  from always_above_no_passes [OF h, of 1] show ?thesis by simp
qed

text \<open>
  Claim C1 says that every pass has \<open>aos < tca < los\<close> and a greatest elevation of at least
  zero. A satellite above the horizon at the single instant 20 s gives a pass, well inside
  the window, that starts one millisecond before that instant: its only fine sample is at
  its AOS, below the horizon.
\<close>

theorem pass_invariant_counterexample:
  "computeNextPasses spike 0 1 1 =
     PassesListed [\<lparr>aos = 19999, los = 20000, tca = 19999, maxElev = - 1\<rparr>]"
  by (simp add: scan_eval spike_aos spike_los spike_def)

text \<open>
  Claim C1, amended. Every pass of the table has \<open>aos < los\<close> and \<open>aos \<le> tca \<le> los\<close>, and
  its greatest elevation is at least the initial \<open>- 999\<close> of the peak finder.
\<close>

theorem pass_invariant:
  assumes "computeNextPasses el start nPasses searchHours = PassesListed ps" and "p \<in> set ps"
  shows "aos p < los p \<and> aos p \<le> tca p \<and> tca p \<le> los p \<and> - 999 \<le> maxElev p"
proof -
  from assms(1) have "ps = scan_passes el start nPasses searchHours"
    by (simp add: computeNextPasses_def Let_def split: if_splits)
  with scan_passes_ordered [of el start nPasses searchHours] assms(2) show ?thesis
    by (auto simp: passes_ordered_def)
qed

theorem pass_invariant_witness:
  "computeNextPasses hump 0 5 1 =
     PassesListed [\<lparr>aos = 29999, los = 89999, tca = 59999, maxElev = 899999999 / 100000000\<rparr>] \<and>
   \<lparr>aos = 29999, los = 89999, tca = 59999, maxElev = 899999999 / 100000000\<rparr> \<in>
     set [\<lparr>aos = 29999, los = 89999, tca = 59999, maxElev = 899999999 / 100000000\<rparr>] \<and>
   (29999::int) < 89999 \<and> (29999::int) \<le> 59999 \<and> (59999::int) \<le> 89999 \<and>
   (- 999 :: rat) \<le> 899999999 / 100000000"
proof -
  let ?p = "\<lparr>aos = 29999, los = 89999, tca = 59999, maxElev = 899999999 / 100000000\<rparr>"
  have h2: "?p \<in> set [?p]" by simp
  from pass_invariant [OF hump_run h2] hump_run h2 show ?thesis by simp
qed

text \<open>
  Claim C4. Let \<open>k \<ge> 1\<close>, and let the search find more than \<open>k\<close> passes when it is allowed
  \<open>n\<close> of them. Allowed \<open>k\<close>, it lists exactly \<open>k\<close> passes, the first \<open>k\<close> of those, in
  ascending order of AOS.
\<close>

theorem maxPasses_cap:
  assumes "1 \<le> k"
    and "computeNextPasses el start n searchHours = PassesListed qs"
    and "k < int (length qs)"
  shows "\<exists>ps. computeNextPasses el start k searchHours = PassesListed ps \<and>
    ps = take (nat k) qs \<and> int (length ps) = k \<and> sorted_wrt (\<lambda>p q. aos p < aos q) ps"
proof -
  let ?end = "start + searchHours * 3600 * 1000"
  let ?run = "\<lambda>m. passes (scan_for el m ?end (start + stepMs) (scan_init el start))"
  from assms(2) have qs: "qs = ?run n"
    by (simp add: computeNextPasses_def scan_passes_def Let_def split: if_splits)
  have "int (length (?run n)) \<le> max n 1"
    by (rule scan_for_length) simp
  with assms(1,3) qs have kn: "k \<le> n" by simp
  have "?run k = (if int (length (?run n)) \<ge> k then take (nat k) (?run n) else ?run n)"
    by (rule scan_for_cap [OF kn]) (use assms(1) in simp)
  with assms(3) qs have eq: "?run k = take (nat k) qs" by simp
  with assms(1,3) have len: "int (length (?run k)) = k" by simp
  with assms(1) have ne: "?run k \<noteq> []" by auto
  have "sorted_wrt (\<lambda>p q. aos p < aos q) (?run k)"
    using scan_passes_ordered [of el start k searchHours] passes_ordered_ascending
    by (auto simp: scan_passes_def Let_def)
  with eq len ne show ?thesis
    by (simp add: computeNextPasses_def scan_passes_def Let_def)
qed

theorem maxPasses_cap_witness:
  "(1::int) \<le> 2 \<and>
   computeNextPasses three_passes 0 3 1 = PassesListed
    [\<lparr>aos = 99999, los = 199999, tca = 104999, maxElev = 1\<rparr>,
     \<lparr>aos = 299999, los = 399999, tca = 304999, maxElev = 1\<rparr>,
     \<lparr>aos = 499999, los = 599999, tca = 504999, maxElev = 1\<rparr>] \<and>
   2 < int (length
    [\<lparr>aos = 99999, los = 199999, tca = 104999, maxElev = 1\<rparr>,
     \<lparr>aos = 299999, los = 399999, tca = 304999, maxElev = 1\<rparr>,
     \<lparr>aos = 499999, los = 599999, tca = 504999, maxElev = 1\<rparr>]) \<and>
   computeNextPasses three_passes 0 2 1 = PassesListed
    [\<lparr>aos = 99999, los = 199999, tca = 104999, maxElev = 1\<rparr>,
     \<lparr>aos = 299999, los = 399999, tca = 304999, maxElev = 1\<rparr>]"
proof -
  have h1: "(1::int) \<le> 2" by simp
  have h3: "2 < int (length
    [\<lparr>aos = 99999, los = 199999, tca = 104999, maxElev = 1\<rparr>,
     \<lparr>aos = 299999, los = 399999, tca = 304999, maxElev = 1\<rparr>,
     \<lparr>aos = 499999, los = 599999, tca = 504999, maxElev = 1::rat\<rparr>])" by simp
  from maxPasses_cap [OF h1 three_passes_run3 h3] h1 h3 three_passes_run3
  show ?thesis by auto
qed

text \<open>
  Claim C7 says that the flag is seeded from the first sample that has an answer, and that
  when this sample is above the horizon the pass in progress has its AOS at the start of
  the window. The scan seeds the flag from the sample at the start alone, and counts no
  answer as \<open>- 999\<close>: with no answer at the start and the first answer, at 20 s, above the
  horizon, the AOS is at 20 s and not at the start.
\<close>

theorem scan_seed_counterexample:
  "gappy 0 = None \<and> gappy 20000 = Some 1 \<and>
   computeNextPasses gappy 0 1 1 =
     PassesListed [\<lparr>aos = 20000, los = 40000, tca = 20000, maxElev = 1\<rparr>]"
  using gappy_run by (simp add: gappy_def)

text \<open>
  Claim C7, amended. The flag is seeded from the sample at the start of the window: when
  it has an answer, the scan starts in a pass exactly when the answer is above zero, with
  the AOS at the start. When it has none the scan starts out of a pass, and the first
  sample with an answer above zero is a crossing up whose AOS is the time of that sample.
\<close>

theorem scan_seed:
  "(\<forall>e. el start = Some e \<longrightarrow>
      inPass (scan_init el start) = (e > 0) \<and>
      currentAOS (scan_init el start) = (if e > 0 then Some start else None)) \<and>
   (el start = None \<longrightarrow>
      \<not> inPass (scan_init el start) \<and> currentAOS (scan_init el start) = None \<and>
      (\<forall>t e. el t = Some e \<and> e > 0 \<longrightarrow>
         scan_body el nPasses t (scan_init el start) =
           (False, (scan_init el start)\<lparr>inPass := True, currentAOS := Some t,
              prevT := t, prevE := e\<rparr>)))"
proof -
  have "inPass (scan_init el start) = (e > 0) \<and>
      currentAOS (scan_init el start) = (if e > 0 then Some start else None)"
    if "el start = Some e" for e
    using that by (simp add: scan_init_def)
  moreover have "\<not> inPass (scan_init el start) \<and> currentAOS (scan_init el start) = None"
    if "el start = None"
    using that by (simp add: scan_init_def)
  moreover have "scan_body el nPasses t (scan_init el start) =
           (False, (scan_init el start)\<lparr>inPass := True, currentAOS := Some t,
              prevT := t, prevE := e\<rparr>)"
    if "el start = None" "el t = Some e \<and> e > 0" for t e
  proof -
    have "bisectCrossingTime el start t 0 25 = None"
      using that(1) by (simp add: bisectCrossingTime_def newDate_of_int)
    with that show ?thesis
      by (simp add: scan_body_def crossing_up_def crossing_down_def scan_init_def)
  qed
  ultimately show ?thesis by blast
qed

theorem scan_seed_witness:
  "overhead 0 = Some 10 \<and> inPass (scan_init overhead 0) = ((10::rat) > 0) \<and>
   currentAOS (scan_init overhead 0) = (if (10::rat) > 0 then Some 0 else None) \<and>
   gappy 0 = None \<and> gappy 20000 = Some 1 \<and> (1::rat) > 0 \<and>
   \<not> inPass (scan_init gappy 0) \<and> currentAOS (scan_init gappy 0) = None \<and>
   scan_body gappy 1 20000 (scan_init gappy 0) =
     (False, (scan_init gappy 0)\<lparr>inPass := True, currentAOS := Some 20000,
        prevT := 20000, prevE := 1\<rparr>)"
proof -
  have o: "overhead 0 = Some 10" by (simp add: overhead_def)
  have g: "gappy 0 = None" "gappy 20000 = Some 1 \<and> (1::rat) > 0" by (simp_all add: gappy_def)
  from scan_seed [of overhead 0 1] o
  have "inPass (scan_init overhead 0) = ((10::rat) > 0) \<and>
    currentAOS (scan_init overhead 0) = (if (10::rat) > 0 then Some 0 else None)" by blast
  moreover from scan_seed [of gappy 0 1] g
  have "\<not> inPass (scan_init gappy 0) \<and> currentAOS (scan_init gappy 0) = None \<and>
    scan_body gappy 1 20000 (scan_init gappy 0) =
     (False, (scan_init gappy 0)\<lparr>inPass := True, currentAOS := Some 20000,
        prevT := 20000, prevE := 1\<rparr>)" by blast
  ultimately show ?thesis using o g by blast
qed

text \<open>
  Claim C9 says that the search finds the same passes when the elevation function loses
  its answer at every other coarse sample. For the hump, whose crossings at 30 s and 90 s
  are ten seconds away from the lost samples, both searches find one pass, but not the
  same one: with the gaps, the midpoint of each bracket is a lost sample, the bisection
  fails, and the AOS and the LOS are the times of coarse samples.
\<close>

theorem gaps_same_passes_counterexample:
  "hump_gaps 20000 = None \<and> hump_gaps 40000 = hump 40000 \<and>
   computeNextPasses hump 0 5 1 =
     PassesListed [\<lparr>aos = 29999, los = 89999, tca = 59999, maxElev = 899999999 / 100000000\<rparr>] \<and>
   computeNextPasses hump_gaps 0 5 1 =
     PassesListed [\<lparr>aos = 40000, los = 120000, tca = 55000, maxElev = 35 / 4\<rparr>]"
  using hump_run hump_gaps_run by (simp add: hump_gaps_def)

text \<open>
  Claim C9, amended. Let the elevation function answer at every coarse sample of the
  window, and let every stretch of coarse samples above or below the horizon be at least
  two samples long (a pass that is running at the start lasts to the first sample, and no
  sample inside the window differs from both its neighbours), so that no stretch hides in a
  gap. Let the gaps be at \<open>start + 20 s\<close>, \<open>start + 60 s\<close>, ... (\<open>gapped start el\<close>). Then
  the search finds as many passes with the gaps as without them, and its \<open>k\<close>-th pass is
  the \<open>k\<close>-th pass found without the gaps, seen more coarsely: the midpoint of every
  bracket is a lost sample, the bisection fails, and the AOS and the LOS are times of
  coarse samples, at most 40 s after the AOS and the LOS found without the gaps. The window
  holds an even number of coarse steps (180 an hour), so its last sample is not a lost one.

  When the gaps are at \<open>start\<close>, \<open>start + 40 s\<close>, ... instead
  (\<open>gapped (start + stepMs) el\<close>), the last sample of the window is a lost one, and the
  same holds provided no pass sets at it.

  A lost sample itself changes nothing: the body of the loop leaves every variable of the
  scan as it was, the last sample with an answer among them, and stays in the loop.

  Of the bisection on \<open>el\<close> the proof uses only that its result lies in the bracket, and
  of the bisection with the gaps that its first midpoint, the sum of two integers halved,
  is the lost sample; neither depends on the rounding of binary64.
\<close>

theorem gaps_same_crossings:
  assumes "\<forall>i. 0 \<le> i \<and> i \<le> 180 * searchHours \<longrightarrow> el (start + i * stepMs) \<noteq> None"
    and "above el start \<longrightarrow> above el (start + stepMs)"
    and "\<forall>i. 0 < i \<and> i < 180 * searchHours \<longrightarrow>
      above el (start + i * stepMs) = above el (start + (i - 1) * stepMs) \<or>
      above el (start + i * stepMs) = above el (start + (i + 1) * stepMs)"
  shows "list_all2 (same_crossings start) (scan_passes el start nPasses searchHours)
      (scan_passes (gapped start el) start nPasses searchHours) \<and>
    ((above el (start + (180 * searchHours - 1) * stepMs) \<longrightarrow>
        above el (start + 180 * searchHours * stepMs)) \<longrightarrow>
      list_all2 (same_crossings (start + stepMs)) (scan_passes el start nPasses searchHours)
        (scan_passes (gapped (start + stepMs) el) start nPasses searchHours)) \<and>
    (\<forall>g i s. scan_body (gapped g el) nPasses (g + (2 * i + 1) * stepMs) s = (False, s))"
  using gaps_run_related [OF assms] gaps_run_related_even [OF assms] gapped_skipped by blast

theorem gaps_same_crossings_witness:
  "list_all2 (same_crossings 0)
     [\<lparr>aos = 29999, los = 89999, tca = 59999, maxElev = 899999999 / 100000000\<rparr>]
     [\<lparr>aos = 40000, los = 120000, tca = 55000, maxElev = 35 / 4\<rparr>] \<and>
   scan_passes hump 0 5 1 =
     [\<lparr>aos = 29999, los = 89999, tca = 59999, maxElev = 899999999 / 100000000\<rparr>] \<and>
   scan_passes (gapped 0 hump) 0 5 1 =
     [\<lparr>aos = 40000, los = 120000, tca = 55000, maxElev = 35 / 4\<rparr>] \<and>
   list_all2 (same_crossings 20000) (scan_passes hump 0 5 1)
     (scan_passes (gapped 20000 hump) 0 5 1) \<and>
   scan_body (gapped 0 hump) 5 20000 (scan_init hump 0) = (False, scan_init hump 0)"
proof -
  have v: "\<forall>i. 0 \<le> i \<and> i \<le> 180 * 1 \<longrightarrow> hump (0 + i * stepMs) \<noteq> None"
    by (simp add: hump_def)
  have f: "above hump 0 \<longrightarrow> above hump (0 + stepMs)" by (simp add: above_hump)
  have l: "above hump (0 + (180 * 1 - 1) * stepMs) \<longrightarrow> above hump (0 + 180 * 1 * stepMs)"
    by (simp add: above_hump stepMs_def)
  note run = gaps_same_crossings [OF v f hump_stretch, of 5]
  from run have "list_all2 (same_crossings 0) (scan_passes hump 0 5 1)
      (scan_passes (gapped 0 hump) 0 5 1)" by blast
  moreover from run l have "list_all2 (same_crossings (0 + stepMs)) (scan_passes hump 0 5 1)
      (scan_passes (gapped (0 + stepMs) hump) 0 5 1)" by blast
  then have "list_all2 (same_crossings 20000) (scan_passes hump 0 5 1)
      (scan_passes (gapped 20000 hump) 0 5 1)" by (simp add: stepMs_def)
  moreover from run have "scan_body (gapped 0 hump) 5 (0 + (2 * 0 + 1) * stepMs) (scan_init hump 0) =
      (False, scan_init hump 0)" by blast
  then have "scan_body (gapped 0 hump) 5 20000 (scan_init hump 0) = (False, scan_init hump 0)"
    by (simp add: stepMs_def)
  ultimately show ?thesis using hump_passes hump_gaps_passes by (simp add: gapped_hump)
qed


end
